theory Spec2Isabelle
  imports
    Complex_Main
    "HOL-Library.Word"
    "HOL-Library.AList"
    "HOL-Library.Multiset"
    "HOL-Library.List_Lexorder"
    "HOL-Library.Char_ord"
begin

unbundle bit_operations_syntax

section \<open>The query engine of influxql (engine.go)\<close>

text \<open>
  A shallow embedding of the map/reduce engine of \<^verbatim>\<open>influxql/engine.go\<close>.
  Conventions of the embedding:
  \<^item> a Go \<^verbatim>\<open>interface{}\<close> value is a \<open>val\<close>; a failed type assertion, an
    index out of range and an explicit \<^verbatim>\<open>panic\<close> are values of \<open>panic\<close>;
  \<^item> \<^verbatim>\<open>float64\<close> is idealised as \<open>real\<close>: rounding, infinities and NaN
    are outside the model;
  \<^item> \<^verbatim>\<open>int64\<close> is \<open>int\<close> with the two's complement wrap-around written
    out (\<open>wrap64\<close>), Go's \<^verbatim>\<open>%\<close> is the truncating remainder;
  \<^item> a Go string and a byte slice are a \<open>string\<close> (a list of 8-bit characters),
    compared bytewise;
  \<^item> a Go map is an association list with distinct keys; a channel is the list of
    the messages sent on it before it is closed.
\<close>

subsection \<open>Values, tokens, keys\<close>

datatype val =
    VNil
  | VFloat real
  | VString string
  | VFloats "real list"
  | VList "val list"
  | VInt int
  | VBool bool
  | VTime int
  | VDuration int

datatype panic =
    InterfaceConversion
  | IndexOutOfRange
  | SliceBoundsOutOfRange
  | InvalidOperation

text \<open>The operator tokens the evaluator knows, and one that it does not.\<close>

datatype Token = ADD | SUB | MUL | DIV | EQ

record Key =
  Timestamp :: int
  Values :: string

type_synonym batch = "(Key \<times> val) list"

text \<open>The type assertion \<^verbatim>\<open>v.(float64)\<close>.\<close>

definition assertFloat :: "val \<Rightarrow> panic + real" where
  "assertFloat v = (case v of VFloat x \<Rightarrow> Inr x | _ \<Rightarrow> Inl InterfaceConversion)"

text \<open>Reading a Go map: a missing key gives the zero value, here the nil interface.\<close>

definition mapIndex :: "('k \<times> val) list \<Rightarrow> 'k \<Rightarrow> val" where
  "mapIndex m k = (case map_of m k of None \<Rightarrow> VNil | Some v \<Rightarrow> v)"

definition mapHas :: "('k \<times> 'v) list \<Rightarrow> 'k \<Rightarrow> bool" where
  "mapHas m k = (map_of m k \<noteq> None)"

subsection \<open>binaryExprEvaluator\<close>

text \<open>
  \<^verbatim>\<open>binaryExprEvaluator.eval\<close>. Go evaluates the operands of \<^verbatim>\<open>+\<close> from
  left to right, so the assertion on \<open>lhs\<close> fails first; for \<^verbatim>\<open>DIV\<close> the
  right operand is asserted and tested before the left one is looked at.
\<close>

fun eval :: "Token \<Rightarrow> val \<Rightarrow> val \<Rightarrow> panic + val" where
  "eval ADD lhs rhs =
     (case assertFloat lhs of Inl e \<Rightarrow> Inl e | Inr a \<Rightarrow>
        (case assertFloat rhs of Inl e \<Rightarrow> Inl e | Inr b \<Rightarrow> Inr (VFloat (a + b))))"
| "eval SUB lhs rhs =
     (case assertFloat lhs of Inl e \<Rightarrow> Inl e | Inr a \<Rightarrow>
        (case assertFloat rhs of Inl e \<Rightarrow> Inl e | Inr b \<Rightarrow> Inr (VFloat (a - b))))"
| "eval MUL lhs rhs =
     (case assertFloat lhs of Inl e \<Rightarrow> Inl e | Inr a \<Rightarrow>
        (case assertFloat rhs of Inl e \<Rightarrow> Inl e | Inr b \<Rightarrow> Inr (VFloat (a * b))))"
| "eval DIV lhs rhs =
     (case assertFloat rhs of Inl e \<Rightarrow> Inl e | Inr b \<Rightarrow>
        if b = 0 then Inr (VFloat 0)
        else (case assertFloat lhs of Inl e \<Rightarrow> Inl e | Inr a \<Rightarrow> Inr (VFloat (a / b))))"
| "eval EQ lhs rhs = Inl InvalidOperation"

text \<open>
  The body of the loop of \<^verbatim>\<open>binaryExprEvaluator.run\<close>, after both batches are
  read: the first loop ranges over \<open>lhs\<close> and stores \<open>eval v rhs[k]\<close>, the second
  ranges over \<open>rhs\<close> and skips the keys already stored.
\<close>

fun mergeLhs :: "Token \<Rightarrow> batch \<Rightarrow> batch \<Rightarrow> batch \<Rightarrow> panic + batch" where
  "mergeLhs opr rhs [] m = Inr m"
| "mergeLhs opr rhs ((k, v) # lhs) m =
     (case eval opr v (mapIndex rhs k) of
        Inl e \<Rightarrow> Inl e
      | Inr x \<Rightarrow> mergeLhs opr rhs lhs (AList.update k x m))"

fun mergeRhs :: "Token \<Rightarrow> batch \<Rightarrow> batch \<Rightarrow> panic + batch" where
  "mergeRhs opr [] m = Inr m"
| "mergeRhs opr ((k, v) # rhs) m =
     (if mapHas m k then mergeRhs opr rhs m
      else (case eval opr (VFloat 0) v of
              Inl e \<Rightarrow> Inl e
            | Inr x \<Rightarrow> mergeRhs opr rhs (AList.update k x m)))"

definition mergeMaps :: "Token \<Rightarrow> batch \<Rightarrow> batch \<Rightarrow> panic + batch" where
  "mergeMaps opr lhs rhs =
     (case mergeLhs opr rhs lhs [] of Inl e \<Rightarrow> Inl e | Inr m \<Rightarrow> mergeRhs opr rhs m)"

text \<open>
  \<^verbatim>\<open>binaryExprEvaluator.run\<close>: one batch is read from each child per round, and the
  loop ends when either channel is closed.
\<close>

fun run :: "Token \<Rightarrow> batch list \<Rightarrow> batch list \<Rightarrow> panic + batch list" where
  "run opr (l # ls) (r # rs) =
     (case mergeMaps opr l r of
        Inl e \<Rightarrow> Inl e
      | Inr m \<Rightarrow> (case run opr ls rs of Inl e \<Rightarrow> Inl e | Inr ms \<Rightarrow> Inr (m # ms)))"
| "run opr ls rs = Inr []"

subsection \<open>MarshalStrings and UnmarshalStrings\<close>

text \<open>
  \<^verbatim>\<open>binary.BigEndian.PutUint16\<close> and \<^verbatim>\<open>binary.BigEndian.Uint16\<close>: the high
  byte first. \<open>char_of\<close> keeps the low eight bits, as the conversion to \<^verbatim>\<open>byte\<close>
  does.
\<close>

definition PutUint16 :: "16 word \<Rightarrow> string" where
  "PutUint16 v = [char_of (unat (drop_bit 8 v)), char_of (unat v)]"

definition Uint16 :: "string \<Rightarrow> 16 word" where
  "Uint16 b = of_char (b ! 1) OR push_bit 8 (of_char (b ! 0))"

text \<open>
  \<^verbatim>\<open>MarshalStrings\<close>: for each string a block of \<open>2 + len(s)\<close> bytes is appended,
  the length converted to \<^verbatim>\<open>uint16\<close> (which keeps its low 16 bits).
\<close>

fun MarshalStrings :: "string list \<Rightarrow> string" where
  "MarshalStrings [] = []"
| "MarshalStrings (s # a) = (PutUint16 (word_of_nat (length s)) @ s) @ MarshalStrings a"

text \<open>
  \<^verbatim>\<open>UnmarshalStrings\<close>. \<open>n\<close> is a \<^verbatim>\<open>uint16\<close>, and so is \<open>n+2\<close>: the
  addition wraps at \<open>2^16\<close>. \<open>sliceEnd b\<close> is that \<open>n+2\<close>, the upper bound of
  \<^verbatim>\<open>b[2:n+2]\<close> and the lower bound of \<^verbatim>\<open>b[n+2:]\<close>. A slice expression whose
  bounds are out of order or beyond the slice panics; the slice is taken to have no
  spare capacity beyond its length.
\<close>

definition sliceEnd :: "string \<Rightarrow> nat" where
  "sliceEnd b = unat (Uint16 b + 2)"

function UnmarshalStrings :: "string \<Rightarrow> panic + string list" where
  "UnmarshalStrings b =
     (if length b = 0 then Inr []
      else if length b < 2 then Inl SliceBoundsOutOfRange
      else if sliceEnd b < 2 \<or> length b < sliceEnd b then Inl SliceBoundsOutOfRange
      else (case UnmarshalStrings (drop (sliceEnd b) b) of
              Inl e \<Rightarrow> Inl e
            | Inr ret \<Rightarrow> Inr (take (sliceEnd b - 2) (drop 2 b) # ret)))"
  by pat_completeness auto
termination
  by (relation "measure length") auto

declare UnmarshalStrings.simps [simp del]

subsection \<open>Planner\<close>

text \<open>
  The syntax tree lives in another file of the package; the planner looks at the
  shape of an expression only, so the tree is modelled by its constructors.
\<close>

datatype Expr =
    VarRef string
  | Call string "Expr list"
  | BinaryExpr Token Expr Expr
  | ParenExpr Expr
  | NumberLiteral real
  | StringLiteral string
  | BooleanLiteral bool
  | TimeLiteral int
  | DurationLiteral int

record Field =
  Expr :: Expr
  Alias :: string

record SelectStatement =
  Fields :: "Field list"
  Source :: string
  RawQuery :: bool

type_synonym point = "int \<times> string \<times> val"

record Iterator =
  itrTags :: string
  points :: "point list"

text \<open>A map or reduce function stored in a mapper or reducer is named by a tag.\<close>

datatype MapFunc =
    fnMapCount | fnMapSum | fnMapMean | fnMapMin | fnMapMax | fnMapSpread
  | fnMapStddev | fnMapFirst | fnMapLast | fnMapEcho | fnMapRawQuery

datatype ReduceFunc =
    fnReduceSum | fnReduceMean | fnReduceMin | fnReduceMax | fnReduceSpread
  | fnReduceStddev | fnReduceFirst | fnReduceLast | fnReducePercentile real
  | fnReduceRawQuery

record Mapper =
  fn :: MapFunc
  itr :: Iterator
  interval :: int

record Reducer =
  name :: string
  rfn :: ReduceFunc
  mappers :: "Mapper list"
  isRawQuery :: bool

datatype Processor =
    ReducerProc Reducer
  | BinaryExprEvaluatorProc Token Processor Processor
  | LiteralProc val

text \<open>
  The errors of \<open>Plan\<close>. \<open>External\<close> is an error of the transaction or of the
  statement's own methods, passed on as it is; \<open>Prefixed\<close> is
  \<^verbatim>\<open>fmt.Errorf("lhs: %s", err)\<close>; \<open>Panicked\<close> is a runtime panic, which is
  not an error value: no caller wraps it.
\<close>

datatype planError =
    ExpectedTwoArguments
  | ExpectedOneArgument string
  | ExpectedFieldArgument string
  | ExpectedFloatArgument
  | FunctionNotFound string
  | RawFieldMixedWithAggregate
  | Prefixed string planError
  | External string
  | Panicked panic

text \<open>
  What the planner calls and this file does not define: the database and the
  transaction, the statement's methods, \<^verbatim>\<open>lastIdent\<close> and \<^verbatim>\<open>strings.ToLower\<close>.
\<close>

record Env =
  Begin :: "string option"
  Normalize :: "SelectStatement \<Rightarrow> string + (int \<times> string list)"
  Substatement :: "SelectStatement \<Rightarrow> string \<Rightarrow> string + SelectStatement"
  CreateIterators :: "SelectStatement \<Rightarrow> string + Iterator list"
  FieldIDs :: "Field list \<Rightarrow> string + nat list"
  lastIdent :: "string \<Rightarrow> string"
  ToLower :: "string \<Rightarrow> string"

record Executor =
  stmt :: SelectStatement
  processors :: "Processor list"
  einterval :: int
  tags :: "string list"

definition NewMapper :: "MapFunc \<Rightarrow> Iterator \<Rightarrow> int \<Rightarrow> Mapper" where
  "NewMapper f i d = \<lparr>fn = f, itr = i, interval = d\<rparr>"

definition NewReducer :: "ReduceFunc \<Rightarrow> Mapper list \<Rightarrow> Reducer" where
  "NewReducer f ms = \<lparr>name = '''', rfn = f, mappers = ms, isRawQuery = False\<rparr>"

text \<open>The \<^verbatim>\<open>switch strings.ToLower(c.Name)\<close> of \<open>planCall\<close>.\<close>

definition lookupFunctions :: "string \<Rightarrow> string \<Rightarrow> Expr list \<Rightarrow> planError + (MapFunc \<times> ReduceFunc)" where
  "lookupFunctions lower nm args =
     (if lower = ''count'' then Inr (fnMapCount, fnReduceSum)
      else if lower = ''sum'' then Inr (fnMapSum, fnReduceSum)
      else if lower = ''mean'' then Inr (fnMapMean, fnReduceMean)
      else if lower = ''min'' then Inr (fnMapMin, fnReduceMin)
      else if lower = ''max'' then Inr (fnMapMax, fnReduceMax)
      else if lower = ''spread'' then Inr (fnMapSpread, fnReduceSpread)
      else if lower = ''stddev'' then Inr (fnMapStddev, fnReduceStddev)
      else if lower = ''first'' then Inr (fnMapFirst, fnReduceFirst)
      else if lower = ''last'' then Inr (fnMapLast, fnReduceLast)
      else if lower = ''percentile'' then
        (if length args < 2 then Inl (Panicked IndexOutOfRange)
         else (case args ! 1 of
                 NumberLiteral v \<Rightarrow> Inr (fnMapEcho, fnReducePercentile v)
               | _ \<Rightarrow> Inl ExpectedFloatArgument))
      else Inl (FunctionNotFound nm))"

definition planCall :: "Env \<Rightarrow> Executor \<Rightarrow> string \<Rightarrow> Expr list \<Rightarrow> planError + Reducer" where
  "planCall env e nm args =
     (if nm = ''percentile'' \<and> length args \<noteq> 2 then Inl ExpectedTwoArguments
      else if nm \<noteq> ''percentile'' \<and> length args \<noteq> 1 then Inl (ExpectedOneArgument nm)
      else (case args ! 0 of
        VarRef ref \<Rightarrow>
          (case Substatement env (stmt e) ref of
             Inl err \<Rightarrow> Inl (External err)
           | Inr sub \<Rightarrow>
              (case CreateIterators env sub of
                 Inl err \<Rightarrow> Inl (External err)
               | Inr itrs \<Rightarrow>
                  (case lookupFunctions (ToLower env nm) nm args of
                     Inl err \<Rightarrow> Inl err
                   | Inr (mapFn, reduceFn) \<Rightarrow>
                       Inr ((NewReducer reduceFn
                               (map (\<lambda>i. NewMapper mapFn i (einterval e)) itrs))
                            \<lparr>name := lastIdent env (Source sub)\<rparr>))))
      | _ \<Rightarrow> Inl (ExpectedFieldArgument nm)))"

fun planExpr :: "Env \<Rightarrow> Executor \<Rightarrow> Expr \<Rightarrow> planError + Processor" where
  "planExpr env e (VarRef v) = Inl RawFieldMixedWithAggregate"
| "planExpr env e (Call nm args) = map_sum id ReducerProc (planCall env e nm args)"
| "planExpr env e (BinaryExpr opr lhs rhs) =
     (case planExpr env e lhs of
        Inl (Panicked p) \<Rightarrow> Inl (Panicked p)
      | Inl err \<Rightarrow> Inl (Prefixed ''lhs'' err)
      | Inr l \<Rightarrow>
         (case planExpr env e rhs of
            Inl (Panicked p) \<Rightarrow> Inl (Panicked p)
          | Inl err \<Rightarrow> Inl (Prefixed ''rhs'' err)
          | Inr r \<Rightarrow> Inr (BinaryExprEvaluatorProc opr l r)))"
| "planExpr env e (ParenExpr x) = planExpr env e x"
| "planExpr env e (NumberLiteral v) = Inr (LiteralProc (VFloat v))"
| "planExpr env e (StringLiteral v) = Inr (LiteralProc (VString v))"
| "planExpr env e (BooleanLiteral v) = Inr (LiteralProc (VBool v))"
| "planExpr env e (TimeLiteral v) = Inr (LiteralProc (VTime v))"
| "planExpr env e (DurationLiteral v) = Inr (LiteralProc (VDuration v))"

definition planRawQuery :: "Env \<Rightarrow> Executor \<Rightarrow> planError + Reducer" where
  "planRawQuery env e =
     (let st = (stmt e)\<lparr>RawQuery := True\<rparr> in
      case CreateIterators env st of
        Inl err \<Rightarrow> Inl (External err)
      | Inr itrs \<Rightarrow>
         (case FieldIDs env (Fields st) of
            Inl err \<Rightarrow> Inl (External err)
          | Inr ids \<Rightarrow>
              Inr ((NewReducer fnReduceRawQuery
                      (map (\<lambda>i. NewMapper fnMapRawQuery i (einterval e)) itrs))
                   \<lparr>name := lastIdent env (Source st), isRawQuery := True\<rparr>)))"

text \<open>The loop over the fields of \<open>Plan\<close>: the first error is returned.\<close>

fun planFields :: "Env \<Rightarrow> Executor \<Rightarrow> Field list \<Rightarrow> planError + Processor list" where
  "planFields env e [] = Inr []"
| "planFields env e (f # fs) =
     (case planExpr env e (Expr f) of
        Inl err \<Rightarrow> Inl err
      | Inr p \<Rightarrow> map_sum id (Cons p) (planFields env e fs))"

definition Plan :: "Env \<Rightarrow> SelectStatement \<Rightarrow> planError + Executor" where
  "Plan env st =
     (case Begin env of
        Some err \<Rightarrow> Inl (External err)
      | None \<Rightarrow>
         (case Normalize env st of
            Inl err \<Rightarrow> Inl (External err)
          | Inr (d, ts) \<Rightarrow>
             (let e = \<lparr>stmt = st, processors = [], einterval = d, tags = ts\<rparr> in
              case Fields st of
                [] \<Rightarrow> Inl (Panicked IndexOutOfRange)
              | f # fs \<Rightarrow>
                 (case Expr f of
                    VarRef v \<Rightarrow>
                      map_sum id (\<lambda>r. e\<lparr>stmt := (stmt e)\<lparr>RawQuery := True\<rparr>,
                                          processors := [ReducerProc r]\<rparr>)
                        (planRawQuery env e)
                  | _ \<Rightarrow>
                      map_sum id (\<lambda>ps. e\<lparr>processors := ps\<rparr>)
                        (planFields env e (Fields st))))))"

text \<open>An environment in which every outside call succeeds, used to run the planner.\<close>

definition asciiToLower :: "string \<Rightarrow> string" where
  "asciiToLower s =
     map (\<lambda>c. if CHR ''A'' \<le> c \<and> c \<le> CHR ''Z'' then char_of (of_char c + (32::nat)) else c) s"

definition exampleEnv :: Env where
  "exampleEnv =
     \<lparr>Begin = None,
      Normalize = (\<lambda>s. Inr (0, [])),
      Substatement = (\<lambda>s ref. Inr s),
      CreateIterators = (\<lambda>s. Inr []),
      FieldIDs = (\<lambda>fs. Inr []),
      lastIdent = id,
      ToLower = asciiToLower\<rparr>"

definition exampleStatement :: "Expr \<Rightarrow> SelectStatement" where
  "exampleStatement x =
     \<lparr>Fields = [\<lparr>Expr = x, Alias = ''''\<rparr>], Source = ''cpu'', RawQuery = False\<rparr>"

definition exampleExecutor :: "Expr \<Rightarrow> Executor" where
  "exampleExecutor x =
     \<lparr>stmt = exampleStatement x, processors = [], einterval = 0, tags = []\<rparr>"

subsection \<open>Reduce functions\<close>

text \<open>
  A reduce function sends records on its emitter and returns, or panics on the way:
  its outcome is the list of the records sent, in order, and the panic if there was one.
\<close>

type_synonym outcome = "(Key \<times> val) list \<times> panic option"

text \<open>\<^verbatim>\<open>ReduceSum\<close>: the loop \<^verbatim>\<open>n += v.(float64)\<close> from \<open>n\<close>.\<close>

fun sumValues :: "val list \<Rightarrow> real \<Rightarrow> panic + real" where
  "sumValues [] n = Inr n"
| "sumValues (v # values) n =
     (case assertFloat v of Inl e \<Rightarrow> Inl e | Inr x \<Rightarrow> sumValues values (n + x))"

definition ReduceSum :: "Key \<Rightarrow> val list \<Rightarrow> outcome" where
  "ReduceSum key values =
     (case sumValues values 0 of
        Inl e \<Rightarrow> ([], Some e)
      | Inr n \<Rightarrow> ([(key, VFloat n)], None))"

text \<open>
  \<^verbatim>\<open>ReduceStddev\<close>. The first loop appends the \<^verbatim>\<open>[]float64\<close> of every value
  to \<open>data\<close>; the sum and the variance are accumulated from the left.
\<close>

fun appendFloats :: "val list \<Rightarrow> real list \<Rightarrow> panic + real list" where
  "appendFloats [] data = Inr data"
| "appendFloats (v # values) data =
     (case v of
        VFloats xs \<Rightarrow> appendFloats values (data @ xs)
      | _ \<Rightarrow> Inl InterfaceConversion)"

definition ReduceStddev :: "Key \<Rightarrow> val list \<Rightarrow> outcome" where
  "ReduceStddev key values =
     (case appendFloats values [] of
        Inl e \<Rightarrow> ([], Some e)
      | Inr data \<Rightarrow>
          if length data = 0 then ([], None)
          else if length data = 1 then ([(key, VString ''undefined'')], None)
          else
            (let sum = foldl (\<lambda>sum v. sum + v) 0 data;
                 mean = sum / real (length data);
                 variance = foldl (\<lambda>variance v. variance + (v - mean) ^ 2) 0 data;
                 stddev = sqrt (variance / real (length data - 1))
             in ([(key, VFloat stddev)], None)))"

text \<open>
  The sample standard deviation as the specification words it: the square root of the
  sum of the squared deviations from the mean, divided by \<open>n - 1\<close>.
\<close>

definition sampleStddev :: "real list \<Rightarrow> real" where
  "sampleStddev xs =
     sqrt ((\<Sum>x\<leftarrow>xs. (x - sum_list xs / real (length xs)) ^ 2) / (real (length xs) - 1))"

text \<open>
  \<^verbatim>\<open>ReducePercentile\<close>. Every value is asserted to be a \<^verbatim>\<open>[]interface{}\<close> of
  \<^verbatim>\<open>float64\<close>. After the record for an index out of range is sent there is no
  \<^verbatim>\<open>return\<close>: \<^verbatim>\<open>allValues[index]\<close> is evaluated in both cases.
\<close>

fun appendFloatValues :: "val list \<Rightarrow> real list \<Rightarrow> panic + real list" where
  "appendFloatValues [] allValues = Inr allValues"
| "appendFloatValues (v # vals) allValues =
     (case assertFloat v of
        Inl e \<Rightarrow> Inl e
      | Inr x \<Rightarrow> appendFloatValues vals (allValues @ [x]))"

fun appendAllValues :: "val list \<Rightarrow> real list \<Rightarrow> panic + real list" where
  "appendAllValues [] allValues = Inr allValues"
| "appendAllValues (v # values) allValues =
     (case v of
        VList vals \<Rightarrow>
          (case appendFloatValues vals allValues of
             Inl e \<Rightarrow> Inl e
           | Inr allValues' \<Rightarrow> appendAllValues values allValues')
      | _ \<Rightarrow> Inl InterfaceConversion)"

definition percentileIndex :: "nat \<Rightarrow> real \<Rightarrow> int" where
  "percentileIndex len percentile = \<lfloor>real len * percentile / 100 + 1 / 2\<rfloor> - 1"

definition ReducePercentile :: "real \<Rightarrow> Key \<Rightarrow> val list \<Rightarrow> outcome" where
  "ReducePercentile percentile key values =
     (case appendAllValues values [] of
        Inl e \<Rightarrow> ([], Some e)
      | Inr unsorted \<Rightarrow>
          (let allValues = sort unsorted;
               index = percentileIndex (length allValues) percentile;
               sent = (if index < 0 \<or> index \<ge> int (length allValues)
                       then [(key, VFloat 0)] else [])
           in if 0 \<le> index \<and> index < int (length allValues)
              then (sent @ [(key, VFloat (allValues ! nat index))], None)
              else (sent, Some IndexOutOfRange)))"

subsection \<open>Rows\<close>

record Row =
  Name :: string
  Tags :: "(string \<times> string) list"
  Columns :: "string list"
  RowValues :: "val list list"

text \<open>
  \<^verbatim>\<open>Row.tagsKeys\<close>: the slice is made with \<open>len(r.Tags)\<close> empty strings and the
  keys are appended to it, then it is sorted.
\<close>

definition tagsKeys :: "Row \<Rightarrow> string list" where
  "tagsKeys r = sort (replicate (length (Tags r)) [] @ map fst (Tags r))"

text \<open>
  \<^verbatim>\<open>hash/fnv\<close>'s 64-bit FNV-1a: for every byte, xor it into the hash and multiply
  by the prime, modulo \<open>2^64\<close>.
\<close>

definition fnvWrite :: "64 word \<Rightarrow> string \<Rightarrow> 64 word" where
  "fnvWrite h s = foldl (\<lambda>h c. (h XOR of_char c) * 1099511628211) h s"

definition tagsHash :: "Row \<Rightarrow> 64 word" where
  "tagsHash r =
     foldl (\<lambda>h k. fnvWrite (fnvWrite h k) (case map_of (Tags r) k of None \<Rightarrow> [] | Some v \<Rightarrow> v))
       14695981039346656037 (tagsKeys r)"

text \<open>\<^verbatim>\<open>Rows.Less\<close>, on the rows at the two indices.\<close>

definition RowsLess :: "Row \<Rightarrow> Row \<Rightarrow> bool" where
  "RowsLess p q = (if Name p \<noteq> Name q then Name p < Name q else tagsHash p < tagsHash q)"

text \<open>
  \<^verbatim>\<open>sort.Sort\<close> of the standard library, by insertion: it only compares with
  \<open>lt\<close> (the \<^verbatim>\<open>Less\<close> of the interface) and only moves elements.
\<close>

fun insertBy :: "('a \<Rightarrow> 'a \<Rightarrow> bool) \<Rightarrow> 'a \<Rightarrow> 'a list \<Rightarrow> 'a list" where
  "insertBy lt x [] = [x]"
| "insertBy lt x (y # ys) = (if lt x y then x # y # ys else y # insertBy lt x ys)"

definition sortSort :: "('a \<Rightarrow> 'a \<Rightarrow> bool) \<Rightarrow> 'a list \<Rightarrow> 'a list" where
  "sortSort lt xs = foldr (insertBy lt) xs []"

text \<open>
  The end of \<^verbatim>\<open>Executor.execute\<close>: in every value array of every row the time at
  index 0, an \<^verbatim>\<open>int64\<close>, is replaced by a timestamp; the rows are sorted and sent.
  The rows come out of a map, in any order.
\<close>

fun normalizeValues :: "val list \<Rightarrow> panic + val list" where
  "normalizeValues [] = Inl IndexOutOfRange"
| "normalizeValues (VInt t # vs) = Inr (VTime t # vs)"
| "normalizeValues (v # vs) = Inl InterfaceConversion"

fun normalizeAll :: "val list list \<Rightarrow> panic + val list list" where
  "normalizeAll [] = Inr []"
| "normalizeAll (values # rest) =
     (case normalizeValues values of
        Inl e \<Rightarrow> Inl e
      | Inr values' \<Rightarrow> map_sum id (Cons values') (normalizeAll rest))"

fun normalizeRows :: "Row list \<Rightarrow> panic + Row list" where
  "normalizeRows [] = Inr []"
| "normalizeRows (row # rows) =
     (case normalizeAll (RowValues row) of
        Inl e \<Rightarrow> Inl e
      | Inr vs \<Rightarrow> map_sum id (Cons (row\<lparr>RowValues := vs\<rparr>)) (normalizeRows rows))"

definition executeSend :: "Row list \<Rightarrow> panic + Row list" where
  "executeSend rows = map_sum id (sortSort RowsLess) (normalizeRows rows)"

definition timeFirst :: "val list \<Rightarrow> bool" where
  "timeFirst values = (case values of VInt t # vs \<Rightarrow> True | _ \<Rightarrow> False)"

text \<open>
  What the conversion makes of a value array and of a row, as a total function: the
  \<^verbatim>\<open>int64\<close> at index 0 becomes a timestamp and nothing else changes.
\<close>

fun timeOfValues :: "val list \<Rightarrow> val list" where
  "timeOfValues (VInt t # vs) = VTime t # vs"
| "timeOfValues vs = vs"

definition rowWithTimes :: "Row \<Rightarrow> Row" where
  "rowWithTimes r = r\<lparr>RowValues := map timeOfValues (RowValues r)\<rparr>"

text \<open>The order of the rows that the output is compared with: by name, then by hash.\<close>

definition rowLe :: "Row \<Rightarrow> Row \<Rightarrow> bool" where
  "rowLe p q = (Name p \<le> Name q \<and> (Name p = Name q \<longrightarrow> tagsHash p \<le> tagsHash q))"

text \<open>Two rows of one measurement, in an order that is not the order of their hashes.\<close>

definition exampleRows :: "Row list" where
  "exampleRows =
    [\<lparr>Name = ''cpu'', Tags = [(''host'', ''A'')], Columns = [''time'', ''count''],
       RowValues = [[VInt 0, VFloat 2]]\<rparr>,
     \<lparr>Name = ''cpu'', Tags = [(''host'', ''B'')], Columns = [''time'', ''count''],
       RowValues = [[VInt 0, VFloat 3]]\<rparr>]"

subsection \<open>Iterators, the buffered iterator and the Mapper\<close>

text \<open>
  An iterator yields its points in order and then the sentinel, the point with key 0,
  on every further call.
\<close>

definition zeroPoint :: point where
  "zeroPoint = (0, [], VNil)"

definition itrNext :: "Iterator \<Rightarrow> point \<times> Iterator" where
  "itrNext i = (case points i of [] \<Rightarrow> (zeroPoint, i) | p # ps \<Rightarrow> (p, i\<lparr>points := ps\<rparr>))"

record bufIterator =
  bitr :: Iterator
  tmax :: int
  buf :: point
  buffered :: bool

text \<open>\<^verbatim>\<open>bufIterator.Next\<close>, \<^verbatim>\<open>Peek\<close> and \<^verbatim>\<open>EOF\<close>, each returning the new state.\<close>

definition Next :: "bufIterator \<Rightarrow> point \<times> bufIterator" where
  "Next i =
     (let i1 = (if buffered i then i\<lparr>buffered := False\<rparr>
                else (case itrNext (bitr i) of (p, u) \<Rightarrow> i\<lparr>bitr := u, buf := p\<rparr>))
      in if tmax i1 \<noteq> 0 \<and> fst (buf i1) > tmax i1
         then (zeroPoint, i1\<lparr>buffered := True\<rparr>)
         else (buf i1, i1))"

definition Peek :: "bufIterator \<Rightarrow> point \<times> bufIterator" where
  "Peek i = (case Next i of (p, i') \<Rightarrow> (p, i'\<lparr>buffered := True\<rparr>))"

definition EOF :: "bufIterator \<Rightarrow> bool \<times> bufIterator" where
  "EOF i = (case Peek i of (p, i') \<Rightarrow> (fst (buf i') = 0, i'))"

text \<open>
  \<^verbatim>\<open>int64\<close> arithmetic: \<open>wrap64\<close> brings a sum back into the range of the type,
  \<open>goRem\<close> is Go's \<^verbatim>\<open>%\<close>, whose result has the sign of the dividend.
\<close>

definition wrap64 :: "int \<Rightarrow> int" where
  "wrap64 x = (x + 2 ^ 63) mod 2 ^ 64 - 2 ^ 63"

definition goRem :: "int \<Rightarrow> int \<Rightarrow> int" where
  "goRem a b = sgn a * (\<bar>a\<bar> mod \<bar>b\<bar>)"

text \<open>
  The number of points that \<open>Next\<close> can still return: it goes down whenever \<open>Next\<close>
  returns a point other than the sentinel.
\<close>

definition remaining :: "bufIterator \<Rightarrow> nat" where
  "remaining i = length (points (bitr i)) + (if buffered i then 1 else 0)"

text \<open>
  The loop of every map function,
  \<^verbatim>\<open>for k, _, v := itr.Next(); k != 0; k, _, v = itr.Next()\<close>. \<open>drawPoints\<close> collects
  the points the loop body sees.
\<close>

function drawPoints :: "bufIterator \<Rightarrow> point list \<times> bufIterator" where
  "drawPoints i =
     (case Next i of (p, i') \<Rightarrow>
        if fst p \<noteq> 0 then (case drawPoints i' of (ps, i'') \<Rightarrow> (p # ps, i''))
        else ([], i'))"
  by pat_completeness auto
termination
  by (relation "measure remaining")
     (auto simp: remaining_def Next_def itrNext_def zeroPoint_def Let_def
           split: if_splits list.splits)

declare drawPoints.simps [simp del]

text \<open>\<^verbatim>\<open>MapCount\<close>: the loop counts, and the count is emitted as a \<^verbatim>\<open>float64\<close>.\<close>

function countLoop :: "bufIterator \<Rightarrow> nat \<Rightarrow> nat \<times> bufIterator" where
  "countLoop i n =
     (case Next i of (p, i') \<Rightarrow> if fst p \<noteq> 0 then countLoop i' (n + 1) else (n, i'))"
  by pat_completeness auto
termination
  by (relation "measure (\<lambda>(i, n). remaining i)")
     (auto simp: remaining_def Next_def itrNext_def zeroPoint_def Let_def
           split: if_splits list.splits)

declare countLoop.simps [simp del]

definition MapCount :: "bufIterator \<Rightarrow> int \<Rightarrow> (Key \<times> val) list \<times> bufIterator" where
  "MapCount i tmin =
     (case countLoop i 0 of (n, i') \<Rightarrow>
        ([(\<lparr>Timestamp = tmin, Values = itrTags (bitr i')\<rparr>, VFloat (real n))], i'))"

text \<open>
  A map function that emits nothing and reports the points it drew, with the start of
  its window.
\<close>

definition MapDraw :: "bufIterator \<Rightarrow> int \<Rightarrow> (int \<times> point list) list \<times> bufIterator" where
  "MapDraw i tmin = (case drawPoints i of (ps, i') \<Rightarrow> ([(tmin, ps)], i'))"

text \<open>
  The loop of \<^verbatim>\<open>Mapper.run\<close>. It need not end, so it is run for at most \<open>fuel\<close>
  rounds: the result is what the map function emitted in these rounds, and whether the
  loop ended.
\<close>

fun runLoop ::
  "nat \<Rightarrow> (bufIterator \<Rightarrow> int \<Rightarrow> 'a list \<times> bufIterator) \<Rightarrow> int \<Rightarrow> int \<Rightarrow> bufIterator
     \<Rightarrow> 'a list \<times> bool" where
  "runLoop 0 f intv tmin b = ([], False)"
| "runLoop (Suc fuel) f intv tmin b =
     (let b1 = (if intv > 0 then b\<lparr>tmax := wrap64 (tmin + intv - 1)\<rparr> else b) in
      case EOF b1 of (eof, b2) \<Rightarrow>
        if eof then ([], True)
        else (case f b2 tmin of (out, b3) \<Rightarrow>
                (case runLoop fuel f intv (wrap64 (tmin + intv)) b3 of
                   (outs, ended) \<Rightarrow> (out @ outs, ended))))"

definition bufIteratorOver :: "Iterator \<Rightarrow> bufIterator" where
  "bufIteratorOver it = \<lparr>bitr = it, tmax = 0, buf = zeroPoint, buffered = False\<rparr>"

definition MapperRun ::
  "nat \<Rightarrow> (bufIterator \<Rightarrow> int \<Rightarrow> 'a list \<times> bufIterator) \<Rightarrow> Iterator \<Rightarrow> int \<Rightarrow> 'a list \<times> bool" where
  "MapperRun fuel f it intv =
     (if intv > 0 then
        (case Peek (bufIteratorOver it) of (p, b) \<Rightarrow>
           runLoop fuel f intv (fst p - goRem (fst p) intv) b)
      else runLoop fuel f intv 0 (bufIteratorOver it))"

subsection \<open>The points a buffered iterator still holds\<close>

text \<open>
  Notions used to reason about the Mapper. \<open>pending\<close> lists the points that \<open>Next\<close>
  will return, the buffered one first; \<open>holds b s\<close> says that these are \<open>s\<close>, where a
  buffered sentinel at the end of the stream counts as nothing; \<open>passes T p\<close> is the test
  of \<open>Next\<close> against the bound \<open>tmax = T\<close>, where 0 means no bound.
\<close>

definition pending :: "bufIterator \<Rightarrow> point list" where
  "pending b = (if buffered b then buf b # points (bitr b) else points (bitr b))"

definition holds :: "bufIterator \<Rightarrow> point list \<Rightarrow> bool" where
  "holds b s = (pending b = s \<or> (s = [] \<and> buffered b \<and> fst (buf b) = 0 \<and> points (bitr b) = []))"

definition passes :: "int \<Rightarrow> point \<Rightarrow> bool" where
  "passes T p = (T = 0 \<or> fst p \<le> T)"

text \<open>The windows of the loop as a function of the points that are left.\<close>

fun windows :: "nat \<Rightarrow> int \<Rightarrow> int \<Rightarrow> point list \<Rightarrow> (int \<times> point list) list \<times> bool" where
  "windows 0 intv tmin s = ([], False)"
| "windows (Suc fuel) intv tmin s =
     (if s = [] then ([], True)
      else (let T = (if intv > 0 then wrap64 (tmin + intv - 1) else 0) in
            case windows fuel intv (wrap64 (tmin + intv)) (dropWhile (passes T) s) of
              (ws, ended) \<Rightarrow> ((tmin, takeWhile (passes T) s) # ws, ended)))"

text \<open>
  A window with its start: every point is in \<open>[tmin, tmin + interval - 1]\<close>.
\<close>

definition inWindow :: "int \<Rightarrow> int \<times> point list \<Rightarrow> bool" where
  "inWindow intv w = list_all (\<lambda>p. fst w \<le> fst p \<and> fst p \<le> fst w + intv - 1) (snd w)"

text \<open>The record that \<open>MapCount\<close> emits for a window.\<close>

definition countRecord :: "string \<Rightarrow> int \<times> point list \<Rightarrow> Key \<times> val" where
  "countRecord tgs w = (\<lparr>Timestamp = fst w, Values = tgs\<rparr>, VFloat (real (length (snd w))))"

text \<open>A point with a timestamp and no payload.\<close>

definition tsPoint :: "int \<Rightarrow> point" where
  "tsPoint k = (k, [], VNil)"

subsection \<open>Reducer\<close>

text \<open>
  A \<^verbatim>\<open>Record\<close> is a key with a value. The channel of an input is the list of the
  maps sent on it before it is closed; \<open>Emit\<close> sends maps with one entry, and
  \<open>mapToRecord\<close> takes an entry of the map, or nil from the nil map that a closed
  channel gives.
\<close>

type_synonym Record = "Key \<times> val"

record bufInput =
  ibuf :: "Record option"
  chan :: "batch list"

definition mapToRecord :: "batch \<Rightarrow> Record option" where
  "mapToRecord m = (case m of [] \<Rightarrow> None | kv # rest \<Rightarrow> Some kv)"

definition inputRead :: "bufInput \<Rightarrow> Record option \<times> bufInput" where
  "inputRead i =
     (case ibuf i of
        Some rec \<Rightarrow> (Some rec, i\<lparr>ibuf := None\<rparr>)
      | None \<Rightarrow>
         (case chan i of
            [] \<Rightarrow> (None, i)
          | m # ms \<Rightarrow> (mapToRecord m, i\<lparr>chan := ms\<rparr>)))"

definition inputUnread :: "bufInput \<Rightarrow> Record option \<Rightarrow> bufInput" where
  "inputUnread i rec = i\<lparr>ibuf := rec\<rparr>"

definition inputPeek :: "bufInput \<Rightarrow> Record option \<times> bufInput" where
  "inputPeek i = (case inputRead i of (rec, i') \<Rightarrow> (rec, inputUnread i' rec))"

text \<open>
  The first loop of a round of \<^verbatim>\<open>Reducer.run\<close>: every input is peeked, and
  \<open>timestamp\<close>, which starts at 0, takes the timestamp of the record when it is 0 or
  greater than that.
\<close>

fun peekTimestamp :: "bufInput list \<Rightarrow> int \<Rightarrow> int \<times> bufInput list" where
  "peekTimestamp [] timestamp = (timestamp, [])"
| "peekTimestamp (i # inputs) timestamp =
     (case inputPeek i of (rec, i') \<Rightarrow>
        (case peekTimestamp inputs
                (case rec of
                   None \<Rightarrow> timestamp
                 | Some r \<Rightarrow>
                     if timestamp = 0 \<or> Timestamp (fst r) < timestamp
                     then Timestamp (fst r) else timestamp) of
           (t, inputs') \<Rightarrow> (t, i' # inputs')))"

text \<open>\<^verbatim>\<open>data[rec.Key] = append(data[rec.Key], rec.Value)\<close>.\<close>

definition dataAppend :: "(Key \<times> val list) list \<Rightarrow> Record \<Rightarrow> (Key \<times> val list) list" where
  "dataAppend data rec =
     AList.update (fst rec)
       ((case map_of data (fst rec) of None \<Rightarrow> [] | Some vs \<Rightarrow> vs) @ [snd rec]) data"

definition inputSize :: "bufInput \<Rightarrow> nat" where
  "inputSize i = length (chan i) + (case ibuf i of None \<Rightarrow> 0 | Some r \<Rightarrow> 1)"

text \<open>
  The inner loop of the second loop: records are read from one input while they have
  the timestamp of the round; the first other one is put back.
\<close>

function readSame ::
  "int \<Rightarrow> bufInput \<Rightarrow> (Key \<times> val list) list \<Rightarrow> (Key \<times> val list) list \<times> bufInput" where
  "readSame timestamp i data =
     (case inputRead i of
        (None, i') \<Rightarrow> (data, i')
      | (Some rec, i') \<Rightarrow>
          if Timestamp (fst rec) \<noteq> timestamp then (data, inputUnread i' (Some rec))
          else readSame timestamp i' (dataAppend data rec))"
  by pat_completeness auto
termination
  by (relation "measure (\<lambda>(t, i, d). inputSize i)")
     (auto simp: inputSize_def inputRead_def mapToRecord_def
           split: option.splits list.splits)

declare readSame.simps [simp del]

fun readAll ::
  "int \<Rightarrow> bufInput list \<Rightarrow> (Key \<times> val list) list
     \<Rightarrow> (Key \<times> val list) list \<times> bufInput list" where
  "readAll timestamp [] data = (data, [])"
| "readAll timestamp (i # inputs) data =
     (case readSame timestamp i data of (data', i') \<Rightarrow>
        (case readAll timestamp inputs data' of (data'', inputs') \<Rightarrow> (data'', i' # inputs')))"

text \<open>\<^verbatim>\<open>keySlice.Less\<close>, on the keys at the two indices.\<close>

definition keySliceLess :: "Key \<Rightarrow> Key \<Rightarrow> bool" where
  "keySliceLess p q = (Timestamp p < Timestamp q \<or> Values p < Values q)"

text \<open>
  The calls of the reduce function in one round: the keys of \<open>data\<close>, sorted, each
  with its values.
\<close>

definition reduceCalls :: "(Key \<times> val list) list \<Rightarrow> (Key \<times> val list) list" where
  "reduceCalls data =
     map (\<lambda>k. (k, case map_of data k of None \<Rightarrow> [] | Some vs \<Rightarrow> vs))
       (sortSort keySliceLess (map fst data))"

text \<open>
  The loop of \<^verbatim>\<open>Reducer.run\<close>, for at most \<open>fuel\<close> rounds: the calls of the reduce
  function round by round, and whether the loop ended.
\<close>

fun reduceRounds ::
  "nat \<Rightarrow> bufInput list \<Rightarrow> (Key \<times> val list) list list \<times> bool" where
  "reduceRounds 0 inputs = ([], False)"
| "reduceRounds (Suc fuel) inputs =
     (case peekTimestamp inputs 0 of (timestamp, inputs1) \<Rightarrow>
        (case readAll timestamp inputs1 [] of (data, inputs2) \<Rightarrow>
           if length data = 0 then ([], True)
           else (case reduceRounds fuel inputs2 of
                   (rounds, ended) \<Rightarrow> (reduceCalls data # rounds, ended))))"

text \<open>
  The reduce function is called on every key in turn; a panic ends the run. The
  result lists what was emitted.
\<close>

fun reduceEach :: "(Key \<Rightarrow> val list \<Rightarrow> outcome) \<Rightarrow> (Key \<times> val list) list \<Rightarrow> outcome" where
  "reduceEach f [] = ([], None)"
| "reduceEach f ((k, vs) # calls) =
     (case f k vs of
        (out, Some e) \<Rightarrow> (out, Some e)
      | (out, None) \<Rightarrow> (case reduceEach f calls of (outs, e) \<Rightarrow> (out @ outs, e)))"

definition ReducerRun ::
  "nat \<Rightarrow> (Key \<Rightarrow> val list \<Rightarrow> outcome) \<Rightarrow> batch list list \<Rightarrow> outcome \<times> bool" where
  "ReducerRun fuel f inputs =
     (case reduceRounds fuel (map (\<lambda>c. \<lparr>ibuf = None, chan = c\<rparr>) inputs) of
        (rounds, ended) \<Rightarrow> (reduceEach f (concat rounds), ended))"

text \<open>What a Mapper sends on its channel: every emitted record as a map of its own.\<close>

definition MapperChannel :: "(Key \<times> val) list \<times> bool \<Rightarrow> batch list" where
  "MapperChannel r = map (\<lambda>rec. [rec]) (fst r)"

text \<open>The order of keys by (timestamp, tagset).\<close>

definition keyLe :: "Key \<Rightarrow> Key \<Rightarrow> bool" where
  "keyLe p q = (Timestamp p < Timestamp q \<or> (Timestamp p = Timestamp q \<and> Values p \<le> Values q))"

text \<open>
  The arithmetic of the four operators on floats, and a batch whose values are floats.
\<close>

definition binop :: "Token \<Rightarrow> real \<Rightarrow> real \<Rightarrow> real" where
  "binop opr a b =
     (case opr of ADD \<Rightarrow> a + b | SUB \<Rightarrow> a - b | MUL \<Rightarrow> a * b
      | DIV \<Rightarrow> (if b = 0 then 0 else a / b) | EQ \<Rightarrow> 0)"

definition floatBatch :: "(Key \<times> real) list \<Rightarrow> batch" where
  "floatBatch xs = map (\<lambda>(k, a). (k, VFloat a)) xs"

section \<open>Theorems\<close>

subsection \<open>binaryExprEvaluator\<close>

text \<open>
  C1. When the evaluator reads one batch from each child, a key of the left batch that
  the right batch lacks is not combined with 0: \<open>rhs[k]\<close> is the nil interface and
  the type assertion inside \<open>eval\<close> panics. Here the left child is a reducer that
  emitted the window starting at 10 and the right child is a literal processor, which
  sends its value under the zero key.
\<close>

theorem run_lhs_key_missing_in_rhs_panics:
  "run ADD [[(\<lparr>Timestamp = 10, Values = ''''\<rparr>, VFloat 3)]]
           [[(\<lparr>Timestamp = 0, Values = ''''\<rparr>, VFloat 2)]]
     = Inl InterfaceConversion"
  by (simp add: mergeMaps_def mapIndex_def assertFloat_def)

text \<open>
  C6. For \<open>DIV\<close>, \<open>eval\<close> returns 0.0 whenever the right operand is zero, whatever
  the left operand is (it is not even asserted to be a number), and this is a value, not
  a panic.
\<close>

theorem eval_DIV_by_zero: "eval DIV lhs (VFloat 0) = Inr (VFloat 0)"
  by (simp add: assertFloat_def)

subsection \<open>The tagset encoding\<close>

lemma of_char_char_of_unat: "(of_char (char_of (unat v)) :: 16 word) = take_bit 8 v"
proof -
  have "(of_char (char_of (unat v)) :: 16 word) = of_nat (of_char (char_of (unat v)))"
    by (simp only: of_nat_of_char)
  also have "\<dots> = of_nat (take_bit 8 (unat v))"
    by (simp add: take_bit_eq_mod)
  also have "\<dots> = take_bit 8 v"
    by (simp add: take_bit_of_nat [symmetric])
  finally show ?thesis .
qed

lemma Uint16_PutUint16: "Uint16 (PutUint16 v @ rest) = v"
  unfolding Uint16_def PutUint16_def
  apply (simp add: of_char_char_of_unat)
  apply (rule bit_word_eqI)
  apply (auto simp: bit_simps)
  done

lemma sliceEnd_PutUint16: "sliceEnd (PutUint16 v @ rest) = unat (v + 2)"
  by (simp add: sliceEnd_def Uint16_PutUint16)

lemma length_PutUint16 [simp]: "length (PutUint16 v) = 2"
  by (simp add: PutUint16_def)

text \<open>A string of 65534 bytes: its length fits the prefix, but \<open>n + 2\<close> wraps to 0.\<close>

lemma UnmarshalStrings_wraps:
  assumes "length s = 65534"
  shows "UnmarshalStrings (MarshalStrings [s]) = Inl SliceBoundsOutOfRange"
proof -
  have "sliceEnd (PutUint16 (word_of_nat (length s)) @ s) = 0"
    using assms by (simp add: sliceEnd_PutUint16)
  then show ?thesis
    by (subst UnmarshalStrings.simps) simp
qed

text \<open>One block is decoded and the loop goes on with the rest.\<close>

lemma UnmarshalStrings_block:
  assumes "length s < 65534"
  shows "UnmarshalStrings (PutUint16 (word_of_nat (length s)) @ s @ rest) =
    (case UnmarshalStrings rest of Inl e \<Rightarrow> Inl e | Inr ret \<Rightarrow> Inr (s # ret))"
proof -
  define b where "b = PutUint16 (word_of_nat (length s)) @ s @ rest"
  have u: "unat ((word_of_nat (length s) :: 16 word) + 2) = length s + 2"
    using assms by (simp add: unat_word_ariths unat_of_nat)
  have e: "sliceEnd b = length s + 2"
    using u by (simp add: b_def sliceEnd_PutUint16)
  have l: "length b = length s + 2 + length rest"
    by (simp add: b_def)
  have d: "drop (Suc (Suc (length s))) b = rest"
    by (simp add: b_def)
  have t: "take (length s) (drop 2 b) = s"
    by (simp add: b_def)
  have "UnmarshalStrings b =
    (case UnmarshalStrings rest of Inl e \<Rightarrow> Inl e | Inr ret \<Rightarrow> Inr (s # ret))"
    by (subst UnmarshalStrings.simps) (simp add: e l d t split: sum.splits)
  then show ?thesis by (simp only: b_def)
qed

text \<open>
  C9. The round trip fails for a string shorter than \<open>2^16\<close> bytes: with 65534 bytes
  the decoder computes the \<^verbatim>\<open>uint16\<close> bound \<open>65534 + 2 = 0\<close> and the slice
  expression \<^verbatim>\<open>b[2:0]\<close> panics.
\<close>

theorem UnmarshalStrings_MarshalStrings_65534:
  "UnmarshalStrings (MarshalStrings [replicate 65534 (CHR ''a'')]) = Inl SliceBoundsOutOfRange"
  by (rule UnmarshalStrings_wraps) simp

text \<open>
  The round trip holds when every string has at most 65533 bytes, so that \<open>n + 2\<close>
  does not wrap.
\<close>

theorem UnmarshalStrings_MarshalStrings_roundtrip:
  "list_all (\<lambda>s. length s < 65534) a \<Longrightarrow> UnmarshalStrings (MarshalStrings a) = Inr a"
proof (induction a)
  case Nil
  show ?case by (subst UnmarshalStrings.simps) simp
next
  case (Cons s a)
  then show ?case by (simp add: UnmarshalStrings_block)
qed

theorem UnmarshalStrings_MarshalStrings_roundtrip_witness:
  "list_all (\<lambda>s. length s < 65534) [''host'', '''', ''us-east''] \<and>
   UnmarshalStrings (MarshalStrings [''host'', '''', ''us-east'']) = Inr [''host'', '''', ''us-east'']"
  using UnmarshalStrings_MarshalStrings_roundtrip [of "[''host'', '''', ''us-east'']"] by simp

subsection \<open>Planner\<close>

lemma lookupFunctions_not_found:
  "lookupFunctions lower nm args = Inl (FunctionNotFound x) \<Longrightarrow> x = nm"
  by (auto simp: lookupFunctions_def split: if_splits Expr.splits)

lemma planCall_arity:
  assumes "nm \<noteq> ''percentile''" and "length args \<noteq> 1"
  shows "planCall env e nm args = Inl (ExpectedOneArgument nm)"
  using assms by (simp add: planCall_def)

lemma planCall_not_found:
  assumes "planCall env e nm args = Inl (FunctionNotFound x)"
  shows "x = nm \<and> (if nm = ''percentile'' then length args = 2 else length args = 1) \<and>
    (\<exists>ref. args ! 0 = VarRef ref)"
proof -
  have ar: "if nm = ''percentile'' then length args = 2 else length args = 1"
    using assms by (auto simp: planCall_def split: if_splits)
  have vr: "\<exists>ref. args ! 0 = VarRef ref"
    using assms ar by (cases "args ! 0") (auto simp: planCall_def split: if_splits)
  then obtain ref where ref: "args ! 0 = VarRef ref" ..
  have "x = nm"
    using assms ar ref
    by (auto simp: planCall_def split: if_splits sum.splits dest: lookupFunctions_not_found)
  with ar vr show ?thesis by simp
qed

lemma Plan_arity:
  assumes "Begin env = None" and "Normalize env st = Inr (d, ts)"
    and "Fields st = f # fs" and "Expr f = Call nm args"
    and "nm \<noteq> ''percentile''" and "length args \<noteq> 1"
  shows "Plan env st = Inl (ExpectedOneArgument nm)"
  using assms by (simp add: Plan_def planCall_arity)

text \<open>
  C10. In \<open>planCall\<close> the argument count is checked before the function name is
  looked up: a call whose name is not \<open>percentile\<close> and that does not have exactly
  one argument gets the arity error, whatever its name, from \<open>planCall\<close>, from
  \<open>planExpr\<close> and from \<open>Plan\<close> (when the transaction begins, the dimensions
  normalise and the call is the first field). The error \<open>function not found\<close> is
  returned only for a call that passed the arity check and whose first argument is a
  variable reference.
\<close>

theorem planCall_arity_check_precedes_lookup:
  "(nm \<noteq> ''percentile'' \<and> length args \<noteq> 1 \<longrightarrow>
      planCall env e nm args = Inl (ExpectedOneArgument nm) \<and>
      planExpr env e (Call nm args) = Inl (ExpectedOneArgument nm) \<and>
      (Begin env = None \<and> Normalize env st = Inr (d, ts) \<and>
       Fields st = \<lparr>Expr = Call nm args, Alias = a\<rparr> # fs \<longrightarrow>
         Plan env st = Inl (ExpectedOneArgument nm))) \<and>
   (planCall env e nm args = Inl (FunctionNotFound x) \<longrightarrow>
      x = nm \<and> (if nm = ''percentile'' then length args = 2 else length args = 1) \<and>
      (\<exists>ref. args ! 0 = VarRef ref))"
proof (intro conjI impI)
  assume h: "nm \<noteq> ''percentile'' \<and> length args \<noteq> 1"
  then show "planCall env e nm args = Inl (ExpectedOneArgument nm)"
    by (simp add: planCall_arity)
  from h show "planExpr env e (Call nm args) = Inl (ExpectedOneArgument nm)"
    by (simp add: planCall_arity)
  assume "Begin env = None \<and> Normalize env st = Inr (d, ts) \<and>
       Fields st = \<lparr>Expr = Call nm args, Alias = a\<rparr> # fs"
  with h show "Plan env st = Inl (ExpectedOneArgument nm)"
    by (simp add: Plan_arity)
next
  assume h: "planCall env e nm args = Inl (FunctionNotFound x)"
  from planCall_not_found [OF h]
  show "x = nm" and "if nm = ''percentile'' then length args = 2 else length args = 1"
    and "\<exists>ref. args ! 0 = VarRef ref"
    by simp_all
qed

theorem planCall_arity_check_precedes_lookup_witness:
  "(''median'' \<noteq> ''percentile'' \<and> length ([] :: Expr list) \<noteq> 1) \<and>
   planCall exampleEnv (exampleExecutor (Call ''median'' [])) ''median'' [] =
     Inl (ExpectedOneArgument ''median'') \<and>
   Begin exampleEnv = None \<and>
   Normalize exampleEnv (exampleStatement (Call ''median'' [])) = Inr (0, []) \<and>
   Fields (exampleStatement (Call ''median'' [])) = [\<lparr>Expr = Call ''median'' [], Alias = ''''\<rparr>] \<and>
   Plan exampleEnv (exampleStatement (Call ''median'' [])) = Inl (ExpectedOneArgument ''median'') \<and>
   planCall exampleEnv (exampleExecutor (Call ''Median'' [VarRef ''v''])) ''Median'' [VarRef ''v''] =
     Inl (FunctionNotFound ''Median'') \<and>
   (\<exists>ref. [VarRef ''v''] ! 0 = VarRef ref)"
  using
    planCall_arity_check_precedes_lookup
      [where nm = "''median''" and args = "[]" and env = exampleEnv
         and e = "exampleExecutor (Call ''median'' [])"
         and st = "exampleStatement (Call ''median'' [])" and d = 0 and ts = "[]"
         and a = "''''" and fs = "[]" and x = "''median''"]
    planCall_arity_check_precedes_lookup
      [where nm = "''Median''" and args = "[VarRef ''v'']" and env = exampleEnv
         and e = "exampleExecutor (Call ''Median'' [VarRef ''v''])" and x = "''Median''"]
  by (simp add: exampleEnv_def exampleStatement_def exampleExecutor_def planCall_def
        lookupFunctions_def asciiToLower_def)

subsection \<open>Reduce functions\<close>

lemma appendFloats_VFloats:
  "appendFloats (map VFloats xss) data = Inr (data @ concat xss)"
  by (induction xss arbitrary: data) simp_all

lemma foldl_plus_sum_list: "foldl (\<lambda>s v. s + f v) a xs = a + (\<Sum>x\<leftarrow>xs. f x)" for a :: real
  by (induction xs arbitrary: a) (simp_all add: add.assoc)

lemma real_pred_length: "2 \<le> n \<Longrightarrow> real (n - 1) = real n - 1"
  by simp

text \<open>
  C7. On the lists of floats that \<open>MapStddev\<close> emits, \<open>ReduceStddev\<close> sends nothing
  when the concatenated data is empty, the string \<open>undefined\<close> when it holds one
  value, and otherwise the sample standard deviation (the variance divided by
  \<open>n - 1\<close>); in each case it returns without a panic.
\<close>

theorem ReduceStddev_cases:
  "ReduceStddev key (map VFloats xss) =
     (if length (concat xss) = 0 then ([], None)
      else if length (concat xss) = 1 then ([(key, VString ''undefined'')], None)
      else ([(key, VFloat (sampleStddev (concat xss)))], None))"
proof -
  have s: "foldl (\<lambda>sum v. sum + v) 0 data = sum_list data" for data :: "real list"
    using foldl_plus_sum_list [of "\<lambda>v. v" 0 data] by simp
  have v: "foldl (\<lambda>variance v. variance + (v - m) ^ 2) 0 data = (\<Sum>x\<leftarrow>data. (x - m) ^ 2)"
    for data :: "real list" and m
    using foldl_plus_sum_list [of "\<lambda>v. (v - m) ^ 2" 0 data] by simp
  define data where "data = concat xss"
  have r: "ReduceStddev key (map VFloats xss) =
     (if length data = 0 then ([], None)
      else if length data = 1 then ([(key, VString ''undefined'')], None)
      else ([(key, VFloat (sqrt ((\<Sum>x\<leftarrow>data. (x - sum_list data / real (length data)) ^ 2)
                                  / real (length data - 1))))], None))"
    by (simp add: ReduceStddev_def appendFloats_VFloats s v Let_def data_def)
  have "real (length data - 1) = real (length data) - 1" if "length data \<noteq> 0"
    using that by (cases data) simp_all
  then show ?thesis
    unfolding r sampleStddev_def data_def [symmetric] by simp
qed

lemma ReduceStddev_two_points:
  "ReduceStddev key [VFloats [1], VFloats [3]] = ([(key, VFloat (sqrt 2))], None)"
  by (simp add: ReduceStddev_def)

lemma ReduceStddev_single_point:
  "ReduceStddev key [VFloats [42]] = ([(key, VString ''undefined'')], None)"
  by (simp add: ReduceStddev_def)

text \<open>
  C2. For a window without points \<open>MapEcho\<close> emits the empty list; the index is
  \<open>floor(0 * 50 / 100 + 0.5) - 1 = -1\<close>, the reducer sends 0.0 and then, as it does not
  return, evaluates \<open>allValues[-1]\<close> and panics.
\<close>

theorem ReducePercentile_empty_window:
  "ReducePercentile 50 key [VList []] = ([(key, VFloat 0)], Some IndexOutOfRange)"
  by (simp add: ReducePercentile_def percentileIndex_def)

lemma appendFloatValues_VFloat:
  "appendFloatValues (map VFloat xs) acc = Inr (acc @ xs)"
  by (induction xs arbitrary: acc) (simp_all add: assertFloat_def)

lemma appendAllValues_VList:
  "appendAllValues (map (\<lambda>xs. VList (map VFloat xs)) xss) acc = Inr (acc @ concat xss)"
  by (induction xss arbitrary: acc) (simp_all add: appendFloatValues_VFloat)

lemma ReducePercentile_in_range:
  assumes "0 \<le> percentileIndex (length (concat xss)) p"
    and "percentileIndex (length (concat xss)) p < int (length (concat xss))"
  shows "ReducePercentile p key (map (\<lambda>xs. VList (map VFloat xs)) xss) =
    ([(key, VFloat (sort (concat xss) ! nat (percentileIndex (length (concat xss)) p)))], None)"
  using assms by (simp add: ReducePercentile_def appendAllValues_VList Let_def)

lemma ReducePercentile_median_1_to_10:
  "ReducePercentile 50 key [VList (map VFloat [3, 1, 4, 2, 5]), VList (map VFloat [10, 9, 8, 7, 6])]
     = ([(key, VFloat 5)], None)"
  by (simp add: ReducePercentile_def percentileIndex_def assertFloat_def)

subsection \<open>Rows\<close>

lemma rowLe_iff: "rowLe p q \<longleftrightarrow> \<not> RowsLess q p"
  by (auto simp: rowLe_def RowsLess_def)

lemma rowLe_trans: "rowLe p q \<Longrightarrow> rowLe q r \<Longrightarrow> rowLe p r"
  by (auto simp: rowLe_def)

lemma rowLe_total: "rowLe p q \<or> rowLe q p"
  by (auto simp: rowLe_def)

lemma set_insertBy: "set (insertBy lt x xs) = insert x (set xs)"
  by (induction xs) auto

lemma length_insertBy: "length (insertBy lt x xs) = Suc (length xs)"
  by (induction xs) auto

lemma sorted_insertBy:
  "sorted_wrt rowLe xs \<Longrightarrow> sorted_wrt rowLe (insertBy RowsLess x xs)"
proof (induction xs)
  case Nil
  then show ?case by simp
next
  case (Cons y ys)
  show ?case
  proof (cases "RowsLess x y")
    case True
    then have "rowLe x y" using rowLe_total [of x y] by (auto simp: rowLe_iff)
    with Cons.prems True show ?thesis by (auto intro: rowLe_trans)
  next
    case False
    then have "rowLe y x" by (simp add: rowLe_iff)
    with Cons False show ?thesis by (auto simp: set_insertBy)
  qed
qed

lemma sorted_sortSort: "sorted_wrt rowLe (sortSort RowsLess xs)"
  by (induction xs) (simp_all add: sortSort_def sorted_insertBy)

lemma length_sortSort: "length (sortSort lt xs) = length xs"
  by (induction xs) (simp_all add: sortSort_def length_insertBy)

lemma mset_insertBy: "mset (insertBy lt x xs) = add_mset x (mset xs)"
  by (induction xs) simp_all

lemma mset_sortSort: "mset (sortSort lt xs) = mset xs"
  by (induction xs) (simp_all add: sortSort_def mset_insertBy)

lemma normalizeAll_times:
  "list_all timeFirst vs \<Longrightarrow> normalizeAll vs = Inr (map timeOfValues vs)"
proof (induction vs)
  case Nil
  show ?case by simp
next
  case (Cons v vs)
  from Cons.prems obtain t r where "v = VInt t # r"
    by (auto simp: timeFirst_def split: list.splits val.splits)
  with Cons show ?case by simp
qed

lemma normalizeRows_times:
  "list_all (\<lambda>r. list_all timeFirst (RowValues r)) rows \<Longrightarrow>
     normalizeRows rows = Inr (map rowWithTimes rows)"
  by (induction rows) (simp_all add: normalizeAll_times rowWithTimes_def)

text \<open>
  C8. The rows that \<open>execute\<close> sends are the rows it holds, each once, sorted by
  (name, tags hash): the end of \<open>execute\<close> returns (when every value array starts
  with its \<open>int64\<close> time, as \<open>createRowValuesIfNotExists\<close> builds it); what it sends
  is a rearrangement of the given rows with their times converted; and for all
  positions \<open>i < j\<close> of the output the name at \<open>i\<close> is at most the name at \<open>j\<close>
  and, when the names are equal, so are the hashes.
\<close>

theorem executeSend_sorted:
  assumes "list_all (\<lambda>r. list_all timeFirst (RowValues r)) rows"
  shows "\<exists>out. executeSend rows = Inr out \<and>
    mset out = mset (map rowWithTimes rows) \<and> length out = length rows \<and>
    (\<forall>i j. i < j \<and> j < length out \<longrightarrow>
       Name (out ! i) \<le> Name (out ! j) \<and>
       (Name (out ! i) = Name (out ! j) \<longrightarrow> tagsHash (out ! i) \<le> tagsHash (out ! j)))"
proof -
  let ?a = "map rowWithTimes rows"
  let ?out = "sortSort RowsLess ?a"
  have e: "executeSend rows = Inr ?out"
    by (simp add: executeSend_def normalizeRows_times [OF assms])
  have m: "mset ?out = mset ?a" by (rule mset_sortSort)
  have l: "length ?out = length rows" by (simp add: length_sortSort)
  have "sorted_wrt rowLe ?out" by (rule sorted_sortSort)
  then have "\<forall>i j. i < j \<and> j < length ?out \<longrightarrow> rowLe (?out ! i) (?out ! j)"
    by (auto simp: sorted_wrt_iff_nth_less)
  then have s: "\<forall>i j. i < j \<and> j < length ?out \<longrightarrow>
       Name (?out ! i) \<le> Name (?out ! j) \<and>
       (Name (?out ! i) = Name (?out ! j) \<longrightarrow> tagsHash (?out ! i) \<le> tagsHash (?out ! j))"
    by (simp add: rowLe_def)
  from e m l s show ?thesis by blast
qed

lemma tagsHash_hostB: "tagsHash \<lparr>Name = n, Tags = [(''host'', ''B'')], Columns = c, RowValues = v\<rparr> = 4262921459516580727"
  by (simp add: tagsHash_def tagsKeys_def fnvWrite_def)

lemma tagsHash_hostA: "tagsHash \<lparr>Name = n, Tags = [(''host'', ''A'')], Columns = c, RowValues = v\<rparr> = 4262922559028208938"
  by (simp add: tagsHash_def tagsKeys_def fnvWrite_def)

lemma executeSend_example:
  "executeSend
    [\<lparr>Name = ''cpu'', Tags = [(''host'', ''A'')], Columns = [''time'', ''count''],
       RowValues = [[VInt 0, VFloat 2]]\<rparr>,
     \<lparr>Name = ''cpu'', Tags = [(''host'', ''B'')], Columns = [''time'', ''count''],
       RowValues = [[VInt 0, VFloat 3]]\<rparr>] =
   Inr
    [\<lparr>Name = ''cpu'', Tags = [(''host'', ''B'')], Columns = [''time'', ''count''],
       RowValues = [[VTime 0, VFloat 3]]\<rparr>,
     \<lparr>Name = ''cpu'', Tags = [(''host'', ''A'')], Columns = [''time'', ''count''],
       RowValues = [[VTime 0, VFloat 2]]\<rparr>]"
  by (simp add: executeSend_def sortSort_def RowsLess_def tagsHash_hostA tagsHash_hostB)

theorem executeSend_sorted_witness:
  "list_all (\<lambda>r. list_all timeFirst (RowValues r)) exampleRows \<and>
   executeSend exampleRows =
     Inr [\<lparr>Name = ''cpu'', Tags = [(''host'', ''B'')], Columns = [''time'', ''count''],
            RowValues = [[VTime 0, VFloat 3]]\<rparr>,
          \<lparr>Name = ''cpu'', Tags = [(''host'', ''A'')], Columns = [''time'', ''count''],
            RowValues = [[VTime 0, VFloat 2]]\<rparr>] \<and>
   mset [\<lparr>Name = ''cpu'', Tags = [(''host'', ''B'')], Columns = [''time'', ''count''],
            RowValues = [[VTime 0, VFloat 3]]\<rparr>,
         \<lparr>Name = ''cpu'', Tags = [(''host'', ''A'')], Columns = [''time'', ''count''],
            RowValues = [[VTime 0, VFloat 2]]\<rparr>] = mset (map rowWithTimes exampleRows) \<and>
   Name \<lparr>Name = ''cpu'', Tags = [(''host'', ''B'')], Columns = [''time'', ''count''],
            RowValues = [[VTime 0, VFloat 3]]\<rparr>
     \<le> Name \<lparr>Name = ''cpu'', Tags = [(''host'', ''A'')], Columns = [''time'', ''count''],
            RowValues = [[VTime 0, VFloat 2]]\<rparr> \<and>
   tagsHash \<lparr>Name = ''cpu'', Tags = [(''host'', ''B'')], Columns = [''time'', ''count''],
            RowValues = [[VTime 0, VFloat 3]]\<rparr>
     \<le> tagsHash \<lparr>Name = ''cpu'', Tags = [(''host'', ''A'')], Columns = [''time'', ''count''],
            RowValues = [[VTime 0, VFloat 2]]\<rparr>"
proof -
  define rowB where "rowB = \<lparr>Name = ''cpu'', Tags = [(''host'', ''B'')],
    Columns = [''time'', ''count''], RowValues = [[VTime 0, VFloat 3]]\<rparr>"
  define rowA where "rowA = \<lparr>Name = ''cpu'', Tags = [(''host'', ''A'')],
    Columns = [''time'', ''count''], RowValues = [[VTime 0, VFloat 2]]\<rparr>"
  have wf: "list_all (\<lambda>r. list_all timeFirst (RowValues r)) exampleRows"
    by (simp add: exampleRows_def timeFirst_def)
  have ex: "executeSend exampleRows = Inr [rowB, rowA]"
    unfolding exampleRows_def rowA_def rowB_def by (rule executeSend_example)
  from executeSend_sorted [OF wf] obtain out where
    o: "executeSend exampleRows = Inr out" and
    m: "mset out = mset (map rowWithTimes exampleRows)" and
    s: "\<forall>i j. i < j \<and> j < length out \<longrightarrow>
       Name (out ! i) \<le> Name (out ! j) \<and>
       (Name (out ! i) = Name (out ! j) \<longrightarrow> tagsHash (out ! i) \<le> tagsHash (out ! j))"
    by blast
  from o ex have out: "out = [rowB, rowA]" by simp
  have n: "Name rowB = Name rowA" by (simp add: rowA_def rowB_def)
  from s have "(0::nat) < 1 \<and> 1 < length out \<longrightarrow>
       Name (out ! 0) \<le> Name (out ! 1) \<and>
       (Name (out ! 0) = Name (out ! 1) \<longrightarrow> tagsHash (out ! 0) \<le> tagsHash (out ! 1))"
    by blast
  then have "Name rowB \<le> Name rowA \<and> tagsHash rowB \<le> tagsHash rowA"
    using n by (simp add: out)
  with wf ex m show ?thesis
    unfolding out rowA_def rowB_def by blast
qed

subsection \<open>The Mapper\<close>

lemma Next_empty:
  assumes "holds b []"
  shows "fst (fst (Next b)) = 0 \<and> holds (snd (Next b)) [] \<and> tmax (snd (Next b)) = tmax b \<and>
    fst (buf (snd (Next b))) = 0 \<and> points (bitr (snd (Next b))) = [] \<and>
    itrTags (bitr (snd (Next b))) = itrTags (bitr b)"
  using assms
  by (auto simp: holds_def pending_def Next_def itrNext_def zeroPoint_def Let_def
      split: if_splits list.splits)

lemma Next_passes:
  assumes "holds b (x # xs)" and "fst x \<noteq> 0" and "passes (tmax b) x"
  shows "fst (Next b) = x \<and> holds (snd (Next b)) xs \<and> tmax (snd (Next b)) = tmax b \<and>
    buf (snd (Next b)) = x \<and> points (bitr (snd (Next b))) = xs \<and>
    itrTags (bitr (snd (Next b))) = itrTags (bitr b)"
  using assms
  by (auto simp: holds_def pending_def passes_def Next_def itrNext_def Let_def
      split: if_splits list.splits)

lemma Next_stashes:
  assumes "holds b (x # xs)" and "fst x \<noteq> 0" and "\<not> passes (tmax b) x"
  shows "fst (fst (Next b)) = 0 \<and> holds (snd (Next b)) (x # xs) \<and>
    tmax (snd (Next b)) = tmax b \<and> fst (buf (snd (Next b))) \<noteq> 0 \<and>
    buf (snd (Next b)) = x \<and> points (bitr (snd (Next b))) = xs \<and>
    itrTags (bitr (snd (Next b))) = itrTags (bitr b)"
  using assms
  by (auto simp: holds_def pending_def passes_def Next_def itrNext_def zeroPoint_def Let_def
      split: if_splits list.splits)

lemma drawPoints_holds:
  assumes "holds b s" and "list_all (\<lambda>p. fst p \<noteq> 0) s"
  shows "fst (drawPoints b) = takeWhile (passes (tmax b)) s \<and>
    holds (snd (drawPoints b)) (dropWhile (passes (tmax b)) s) \<and>
    tmax (snd (drawPoints b)) = tmax b \<and>
    itrTags (bitr (snd (drawPoints b))) = itrTags (bitr b)"
  using assms
proof (induction s arbitrary: b)
  case Nil
  from Next_empty [OF Nil.prems(1)] show ?case
    by (subst drawPoints.simps, subst (2) drawPoints.simps, subst (3) drawPoints.simps,
        subst (4) drawPoints.simps) (simp add: split_beta)
next
  case (Cons x xs)
  then have x: "fst x \<noteq> 0" and xs: "list_all (\<lambda>p. fst p \<noteq> 0) xs" by simp_all
  show ?case
  proof (cases "passes (tmax b) x")
    case True
    note n = Next_passes [OF Cons.prems(1) x True]
    from n have h: "holds (snd (Next b)) xs" by simp
    from Cons.IH [OF h xs] n x True show ?thesis
      by (subst drawPoints.simps, subst (2) drawPoints.simps, subst (3) drawPoints.simps,
        subst (4) drawPoints.simps) (simp add: split_beta)
  next
    case False
    from Next_stashes [OF Cons.prems(1) x False] False show ?thesis
      by (subst drawPoints.simps, subst (2) drawPoints.simps, subst (3) drawPoints.simps,
        subst (4) drawPoints.simps) (simp add: split_beta)
  qed
qed

lemma countLoop_drawPoints:
  "countLoop b n = (n + length (fst (drawPoints b)), snd (drawPoints b))"
proof (induction b n rule: countLoop.induct)
  case (1 i n)
  show ?case
  proof (cases "fst (fst (Next i)) \<noteq> 0")
    case True
    with 1 [of "fst (Next i)" "snd (Next i)"] show ?thesis
      by (subst countLoop.simps, subst drawPoints.simps, subst (2) drawPoints.simps)
         (simp add: split_beta)
  next
    case False
    then show ?thesis
      by (subst countLoop.simps, subst drawPoints.simps, subst (2) drawPoints.simps)
         (simp add: split_beta)
  qed
qed

lemma Peek_holds:
  assumes "holds b s" and "list_all (\<lambda>p. fst p \<noteq> 0) s"
  shows "holds (snd (Peek b)) s \<and> tmax (snd (Peek b)) = tmax b \<and>
    (fst (buf (snd (Peek b))) = 0 \<longleftrightarrow> s = []) \<and>
    itrTags (bitr (snd (Peek b))) = itrTags (bitr b)"
proof (cases s)
  case Nil
  with Next_empty [of b] assms have "fst (buf (snd (Next b))) = 0"
    and "points (bitr (snd (Next b))) = []" and "tmax (snd (Next b)) = tmax b"
    and "itrTags (bitr (snd (Next b))) = itrTags (bitr b)" by simp_all
  with Nil show ?thesis
    by (simp add: Peek_def split_beta holds_def pending_def)
next
  case (Cons x xs)
  with assms have x: "fst x \<noteq> 0" by simp
  show ?thesis
  proof (cases "passes (tmax b) x")
    case True
    from Next_passes [OF assms(1) [unfolded Cons] x True] Cons x show ?thesis
      by (simp add: Peek_def split_beta holds_def pending_def)
  next
    case False
    from Next_stashes [OF assms(1) [unfolded Cons] x False] Cons x show ?thesis
      by (auto simp: Peek_def split_beta holds_def pending_def)
  qed
qed

lemma EOF_holds:
  assumes "holds b s" and "list_all (\<lambda>p. fst p \<noteq> 0) s"
  shows "fst (EOF b) = (s = []) \<and> holds (snd (EOF b)) s \<and> tmax (snd (EOF b)) = tmax b \<and>
    itrTags (bitr (snd (EOF b))) = itrTags (bitr b)"
  using Peek_holds [OF assms] by (simp add: EOF_def split_beta)

lemma Peek_first:
  "Peek (bufIteratorOver it) = (p, b) \<Longrightarrow>
     fst p = (case points it of [] \<Rightarrow> 0 | x # xs \<Rightarrow> fst x) \<and> tmax b = 0"
  by (auto simp: Peek_def Next_def bufIteratorOver_def itrNext_def zeroPoint_def Let_def
      split: list.splits if_splits)

lemma holds_bufIteratorOver: "holds (bufIteratorOver it) (points it)"
  by (simp add: holds_def pending_def bufIteratorOver_def)

lemma list_all_dropWhile: "list_all P s \<Longrightarrow> list_all P (dropWhile Q s)"
  by (induction s) auto

lemma runLoop_MapDraw:
  assumes "holds b s" and "list_all (\<lambda>p. fst p \<noteq> 0) s" and "intv > 0 \<or> tmax b = 0"
  shows "runLoop fuel MapDraw intv tmin b = windows fuel intv tmin s"
  using assms
proof (induction fuel arbitrary: b s tmin)
  case 0
  show ?case by simp
next
  case (Suc fuel)
  define T where "T = (if intv > 0 then wrap64 (tmin + intv - 1) else 0)"
  define b1 where "b1 = (if intv > 0 then b\<lparr>tmax := wrap64 (tmin + intv - 1)\<rparr> else b)"
  have h1: "holds b1 s" using Suc.prems(1) by (auto simp: b1_def holds_def pending_def)
  have t1: "tmax b1 = T" using Suc.prems(3) by (auto simp: b1_def T_def)
  note e = EOF_holds [OF h1 Suc.prems(2)]
  show ?case
  proof (cases "s = []")
    case True
    with e show ?thesis by (simp add: b1_def [symmetric] split_beta)
  next
    case False
    define b2 where "b2 = snd (EOF b1)"
    have h2: "holds b2 s" and t2: "tmax b2 = T" using e t1 by (simp_all add: b2_def)
    note d = drawPoints_holds [OF h2 Suc.prems(2)]
    define b3 where "b3 = snd (drawPoints b2)"
    have h3: "holds b3 (dropWhile (passes T) s)" using d t2 by (simp add: b3_def)
    have t3: "intv > 0 \<or> tmax b3 = 0" using d t2 by (auto simp: b3_def T_def)
    have a3: "list_all (\<lambda>p. fst p \<noteq> 0) (dropWhile (passes T) s)"
      using Suc.prems(2) by (rule list_all_dropWhile)
    have ih: "runLoop fuel MapDraw intv (wrap64 (tmin + intv)) b3 =
      windows fuel intv (wrap64 (tmin + intv)) (dropWhile (passes T) s)"
      by (rule Suc.IH [OF h3 a3 t3])
    have "runLoop (Suc fuel) MapDraw intv tmin b =
      (case runLoop fuel MapDraw intv (wrap64 (tmin + intv)) b3 of
         (outs, ended) \<Rightarrow> ((tmin, fst (drawPoints b2)) # outs, ended))"
      using e False
      by (simp add: b1_def [symmetric] b2_def [symmetric] b3_def MapDraw_def split_beta)
    also have "\<dots> = windows (Suc fuel) intv tmin s"
      using False d t2 by (simp add: ih T_def [symmetric] Let_def)
    finally show ?thesis .
  qed
qed

lemma MapperRun_MapDraw:
  assumes "list_all (\<lambda>p. fst p \<noteq> 0) (points it)"
  shows "MapperRun fuel MapDraw it intv =
    windows fuel intv
      (if intv > 0 then (case points it of [] \<Rightarrow> 0 | x # xs \<Rightarrow> fst x - goRem (fst x) intv) else 0)
      (points it)"
proof (cases "intv > 0")
  case True
  obtain p b where pb: "Peek (bufIteratorOver it) = (p, b)" by (cases "Peek (bufIteratorOver it)")
  from Peek_holds [OF holds_bufIteratorOver assms] pb have h: "holds b (points it)" by simp
  from Peek_first [OF pb] have f: "fst p = (case points it of [] \<Rightarrow> 0 | x # xs \<Rightarrow> fst x)" by simp
  have "MapperRun fuel MapDraw it intv = runLoop fuel MapDraw intv (fst p - goRem (fst p) intv) b"
    using True pb by (simp add: MapperRun_def)
  also have "\<dots> = windows fuel intv (fst p - goRem (fst p) intv) (points it)"
    using True by (intro runLoop_MapDraw [OF h assms]) simp
  finally show ?thesis using True f by (simp add: goRem_def split: list.splits)
next
  case False
  then show ?thesis
    using runLoop_MapDraw [OF holds_bufIteratorOver assms, of intv fuel 0]
    by (simp add: MapperRun_def bufIteratorOver_def)
qed

lemma wrap64_id: "- (2 ^ 63) \<le> x \<Longrightarrow> x < 2 ^ 63 \<Longrightarrow> wrap64 x = x"
  by (simp add: wrap64_def)

lemma sorted_wrt_dropWhile_fst:
  "sorted_wrt (\<lambda>p q. fst p \<le> (fst q :: int)) s \<Longrightarrow> sorted_wrt (\<lambda>p q. fst p \<le> fst q) (dropWhile P s)"
  by (induction s) auto

lemma dropWhile_lower:
  assumes "sorted_wrt (\<lambda>p q. fst p \<le> (fst q :: int)) s" and "p \<in> set (dropWhile (\<lambda>q. fst q \<le> T) s)"
  shows "T < fst p"
  using assms
proof (induction s)
  case Nil
  then show ?case by simp
next
  case (Cons a s)
  then show ?case by (cases "fst a \<le> T") auto
qed

lemma windows_inWindow:
  assumes "0 < intv"
    and "sorted_wrt (\<lambda>p q. fst p \<le> fst q) s"
    and "\<forall>p\<in>set s. 0 < fst p \<and> fst p + intv < 2 ^ 63 \<and> tmin \<le> fst p"
    and "0 \<le> tmin" and "1 < tmin + intv"
  shows "list_all (inWindow intv) (fst (windows fuel intv tmin s))"
  using assms
proof (induction fuel arbitrary: tmin s)
  case 0
  show ?case by simp
next
  case (Suc fuel)
  show ?case
  proof (cases "s = []")
    case True
    then show ?thesis by simp
  next
    case False
    then obtain x where x: "x \<in> set s" by (cases s) auto
    with Suc.prems have r: "tmin + intv < 2 ^ 63" by force
    define T where "T = tmin + intv - 1"
    have w1: "wrap64 (tmin + intv - 1) = T"
      using r Suc.prems(1,4) by (simp add: T_def wrap64_id)
    have w2: "wrap64 (tmin + intv) = tmin + intv"
      using r Suc.prems(1,4) by (simp add: wrap64_id)
    have T0: "0 < T" using Suc.prems(5) by (simp add: T_def)
    have P: "passes T = (\<lambda>p. fst p \<le> T)" using T0 by (auto simp: passes_def)
    have here: "inWindow intv (tmin, takeWhile (passes T) s)"
      using Suc.prems(3) unfolding inWindow_def P list_all_iff
      by (auto dest!: set_takeWhileD simp: T_def)
    have rest: "list_all (inWindow intv)
        (fst (windows fuel intv (tmin + intv) (dropWhile (passes T) s)))"
    proof (rule Suc.IH)
      show "0 < intv" by fact
      show "sorted_wrt (\<lambda>p q. fst p \<le> fst q) (dropWhile (passes T) s)"
        using Suc.prems(2) by (rule sorted_wrt_dropWhile_fst)
      show "\<forall>p\<in>set (dropWhile (passes T) s).
          0 < fst p \<and> fst p + intv < 2 ^ 63 \<and> tmin + intv \<le> fst p"
      proof
        fix p assume p: "p \<in> set (dropWhile (passes T) s)"
        then have "p \<in> set s" by (auto dest: set_dropWhileD)
        moreover have "T < fst p" using dropWhile_lower [OF Suc.prems(2)] p unfolding P by blast
        ultimately show "0 < fst p \<and> fst p + intv < 2 ^ 63 \<and> tmin + intv \<le> fst p"
          using Suc.prems(3) by (auto simp: T_def)
      qed
      show "0 \<le> tmin + intv" using Suc.prems(1,4) by simp
      show "1 < tmin + intv + intv" using Suc.prems(1,5) by simp
    qed
    show ?thesis
      using False here rest Suc.prems(1)
      by (simp add: w1 w2 split_beta)
  qed
qed

lemma goRem_positive: "0 < a \<Longrightarrow> 0 < b \<Longrightarrow> goRem a b = a mod b"
  by (simp add: goRem_def)

text \<open>
  C4, as amended. For a Mapper with interval \<open>I > 0\<close> over an iterator that yields its
  points in ascending order of timestamp, with positive timestamps below \<open>2^63 - I\<close>:
  in every round of \<open>run\<close>, however many rounds are run, every point drawn by the map
  function called with window start \<open>tmin\<close> satisfies \<open>tmin \<le> ts \<le> tmin + I - 1\<close>;
  and the first window starts at \<open>ts - ts mod I\<close> for the first timestamp \<open>ts\<close>
  (an empty stream has no window and the loop ends at once).
\<close>

theorem MapperRun_points_in_window:
  assumes "0 < intv"
    and "sorted (map fst (points it))"
    and "list_all (\<lambda>p. 0 < fst p \<and> fst p + intv < 2 ^ 63) (points it)"
  shows "list_all (inWindow intv) (fst (MapperRun fuel MapDraw it intv)) \<and>
    (case points it of
       [] \<Rightarrow> MapperRun (Suc fuel) MapDraw it intv = ([], True)
     | x # xs \<Rightarrow> fst (hd (fst (MapperRun (Suc fuel) MapDraw it intv))) = fst x - fst x mod intv)"
proof -
  have nz: "list_all (\<lambda>p. fst p \<noteq> 0) (points it)"
    using assms(3) by (induction "points it") (auto simp: list_all_iff)
  note run = MapperRun_MapDraw [OF nz, of _ intv]
  have srt: "sorted_wrt (\<lambda>p q. fst p \<le> fst q) (points it)"
    using assms(2) by (simp add: sorted_map)
  show ?thesis
  proof (cases "points it")
    case Nil
    have "fst (windows fuel intv 0 []) = []" by (cases fuel) simp_all
    with Nil show ?thesis using assms(1) by (simp add: run)
  next
    case (Cons x xs)
    define tmin where "tmin = fst x - fst x mod intv"
    have x: "0 < fst x" using assms(3) Cons by simp
    have t: "0 \<le> tmin" "tmin \<le> fst x"
      using assms(1) x zmod_le_nonneg_dividend [of "fst x" intv]
      by (simp_all add: tmin_def)
    have t1: "1 < tmin + intv"
    proof -
      have "fst x mod intv < intv" using assms(1) by simp
      then have "fst x < tmin + intv" by (simp add: tmin_def)
      with x show ?thesis by simp
    qed
    have lo: "\<forall>p\<in>set (points it). 0 < fst p \<and> fst p + intv < 2 ^ 63 \<and> tmin \<le> fst p"
      using assms(3) srt t(2) Cons by (auto simp: list_all_iff)
    have r: "MapperRun fuel MapDraw it intv = windows fuel intv tmin (points it)" for fuel
      using assms(1) x Cons by (simp add: run goRem_positive tmin_def)
    have "list_all (inWindow intv) (fst (windows fuel intv tmin (points it)))"
      by (rule windows_inWindow [OF assms(1) srt lo t(1) t1])
    moreover have "fst (hd (fst (windows (Suc fuel) intv tmin (points it)))) = tmin"
      using Cons by (simp add: split_beta Let_def)
    ultimately show ?thesis using Cons by (simp add: r tmin_def)
  qed
qed

theorem MapperRun_points_in_window_witness:
  "(0::int) < 10 \<and>
   sorted (map fst (points \<lparr>itrTags = ''a'', points = map tsPoint [3, 5, 27, 31]\<rparr>)) \<and>
   list_all (\<lambda>p. 0 < fst p \<and> fst p + 10 < 2 ^ 63)
     (points \<lparr>itrTags = ''a'', points = map tsPoint [3, 5, 27, 31]\<rparr>) \<and>
   list_all (inWindow 10)
     (fst (MapperRun 5 MapDraw \<lparr>itrTags = ''a'', points = map tsPoint [3, 5, 27, 31]\<rparr> 10)) \<and>
   fst (hd (fst (MapperRun 5 MapDraw \<lparr>itrTags = ''a'', points = map tsPoint [3, 5, 27, 31]\<rparr> 10)))
     = 3 - 3 mod 10"
  using MapperRun_points_in_window
    [of 10 "\<lparr>itrTags = ''a'', points = map tsPoint [3, 5, 27, 31]\<rparr>" 5]
    MapperRun_points_in_window
    [of 10 "\<lparr>itrTags = ''a'', points = map tsPoint [3, 5, 27, 31]\<rparr>" 4]
  by (simp add: tsPoint_def)

lemma MapperRun_example:
  "MapperRun 5 MapDraw \<lparr>itrTags = ''a'', points = map tsPoint [3, 5, 27, 31]\<rparr> 10 =
     ([(0, map tsPoint [3, 5]), (10, []), (20, map tsPoint [27]), (30, map tsPoint [31])], True)"
  by (simp add: MapperRun_MapDraw tsPoint_def goRem_def wrap64_def passes_def
        eval_nat_numeral Let_def)

text \<open>
  The claim as stated, for every Mapper, fails when the iterator is not ascending:
  \<open>Next\<close> only tests the upper bound, so the window starting at 10 draws the
  point at 3.
\<close>

theorem MapperRun_unordered_points_counterexample:
  "MapperRun 2 MapDraw \<lparr>itrTags = ''a'', points = map tsPoint [15, 3]\<rparr> 10 =
     ([(10, map tsPoint [15, 3])], True) \<and>
   \<not> list_all (inWindow 10)
       (fst (MapperRun 2 MapDraw \<lparr>itrTags = ''a'', points = map tsPoint [15, 3]\<rparr> 10))"
  by (simp add: MapperRun_MapDraw tsPoint_def goRem_def wrap64_def passes_def
        eval_nat_numeral Let_def inWindow_def)

lemma MapperRun_negative_timestamp:
  "MapperRun 2 MapDraw \<lparr>itrTags = ''a'', points = map tsPoint [- 5]\<rparr> 10 =
     ([(0, map tsPoint [- 5])], True)"
  by (simp add: MapperRun_MapDraw tsPoint_def goRem_def wrap64_def passes_def
        eval_nat_numeral Let_def)

lemma itrTags_Next: "itrTags (bitr (snd (Next b))) = itrTags (bitr b)"
  by (simp add: Next_def itrNext_def Let_def split: list.splits)

lemma itrTags_EOF: "itrTags (bitr (snd (EOF b))) = itrTags (bitr b)"
  using itrTags_Next [of b] by (simp add: EOF_def Peek_def split_beta)

lemma itrTags_drawPoints: "itrTags (bitr (snd (drawPoints b))) = itrTags (bitr b)"
proof (induction b rule: drawPoints.induct)
  case (1 i)
  show ?case
  proof (cases "fst (fst (Next i)) \<noteq> 0")
    case True
    with 1 [of "fst (Next i)" "snd (Next i)"] itrTags_Next [of i] show ?thesis
      by (subst drawPoints.simps) (simp add: split_beta)
  next
    case False
    with itrTags_Next [of i] show ?thesis
      by (subst drawPoints.simps) (simp add: split_beta)
  qed
qed

lemma MapCount_MapDraw:
  "MapCount b tmin =
     (map (countRecord (itrTags (bitr b))) (fst (MapDraw b tmin)), snd (MapDraw b tmin))"
  by (simp add: MapCount_def MapDraw_def countLoop_drawPoints split_beta countRecord_def
        itrTags_drawPoints)

lemma runLoop_MapCount:
  "runLoop fuel MapCount intv tmin b =
     (map (countRecord (itrTags (bitr b))) (fst (runLoop fuel MapDraw intv tmin b)),
      snd (runLoop fuel MapDraw intv tmin b))"
proof (induction fuel arbitrary: tmin b)
  case 0
  show ?case by simp
next
  case (Suc fuel)
  define b1 where "b1 = (if intv > 0 then b\<lparr>tmax := wrap64 (tmin + intv - 1)\<rparr> else b)"
  define b2 where "b2 = snd (EOF b1)"
  define b3 where "b3 = snd (MapDraw b2 tmin)"
  have t: "itrTags (bitr b3) = itrTags (bitr b)" "itrTags (bitr b2) = itrTags (bitr b)"
    by (simp_all add: b3_def b2_def b1_def MapDraw_def split_beta itrTags_drawPoints itrTags_EOF)
  show ?case
    using Suc [of "wrap64 (tmin + intv)" b3] t
    by (simp add: b1_def [symmetric] b2_def [symmetric] split_beta Let_def
          MapCount_MapDraw [of b2] b3_def [symmetric])
qed

lemma MapperRun_MapCount:
  "MapperRun fuel MapCount it intv =
     (map (countRecord (itrTags it)) (fst (MapperRun fuel MapDraw it intv)),
      snd (MapperRun fuel MapDraw it intv))"
proof -
  have "itrTags (bitr (snd (Peek (bufIteratorOver it)))) = itrTags it"
    using itrTags_Next [of "bufIteratorOver it"]
    by (simp add: Peek_def split_beta bufIteratorOver_def)
  then show ?thesis
    by (simp add: MapperRun_def split_beta runLoop_MapCount bufIteratorOver_def)
qed

lemma windows_concat:
  "snd (windows fuel intv tmin s) \<Longrightarrow> concat (map snd (fst (windows fuel intv tmin s))) = s"
proof (induction fuel arbitrary: tmin s)
  case 0
  then show ?case by simp
next
  case (Suc fuel)
  show ?case
  proof (cases "s = []")
    case True
    then show ?thesis by simp
  next
    case False
    with Suc show ?thesis by (simp add: split_beta Let_def)
  qed
qed

lemma sumValues_counts:
  "sumValues (map (\<lambda>w. VFloat (real (length (f w)))) ws) n =
     Inr (n + real (length (concat (map f ws))))"
  by (induction ws arbitrary: n) (simp_all add: assertFloat_def)

lemma ReduceSum_counts:
  "ReduceSum key (map snd (map (countRecord tgs) ws)) =
     ([(key, VFloat (real (length (concat (map snd ws)))))], None)"
  using sumValues_counts [of snd ws 0]
  by (simp add: ReduceSum_def countRecord_def comp_def)

lemma MapCount_whole_window:
  assumes "list_all (\<lambda>p. fst p \<noteq> 0) w"
  shows "fst (MapCount (bufIteratorOver \<lparr>itrTags = tgs, points = w\<rparr>) tmin) =
    [countRecord tgs (tmin, w)]"
proof -
  let ?b = "bufIteratorOver \<lparr>itrTags = tgs, points = w\<rparr>"
  have h: "holds ?b w" using holds_bufIteratorOver [of "\<lparr>itrTags = tgs, points = w\<rparr>"] by simp
  have "tmax ?b = 0" by (simp add: bufIteratorOver_def)
  then have "fst (drawPoints ?b) = w"
    using drawPoints_holds [OF h assms] by (simp add: passes_def)
  then show ?thesis
    by (simp add: MapCount_MapDraw MapDraw_def split_beta countRecord_def bufIteratorOver_def)
qed

text \<open>
  C5. The count identity. For every stream whose points have a timestamp other than the
  sentinel 0: however the stream is split into windows, \<open>MapCount\<close> run over each window
  and \<open>ReduceSum\<close> run over the emitted counts yield the number of points of the stream;
  and so for the windows that \<open>Mapper.run\<close> itself makes, with any interval, once its
  loop has ended.
\<close>

theorem count_identity:
  "(list_all (\<lambda>p. fst p \<noteq> 0) (concat (map snd ws)) \<longrightarrow>
      ReduceSum key
        (map snd (concat (map (\<lambda>w. fst (MapCount (bufIteratorOver \<lparr>itrTags = tgs, points = snd w\<rparr>) (fst w))) ws)))
      = ([(key, VFloat (real (length (concat (map snd ws)))))], None)) \<and>
   (list_all (\<lambda>p. fst p \<noteq> 0) (points it) \<and> snd (MapperRun fuel MapCount it intv) \<longrightarrow>
      ReduceSum key (map snd (fst (MapperRun fuel MapCount it intv)))
      = ([(key, VFloat (real (length (points it))))], None))"
proof (intro conjI impI)
  assume nz: "list_all (\<lambda>p. fst p \<noteq> 0) (concat (map snd ws))"
  have "concat (map (\<lambda>w. fst (MapCount (bufIteratorOver \<lparr>itrTags = tgs, points = snd w\<rparr>) (fst w))) ws)
      = map (countRecord tgs) ws"
    using nz by (induction ws) (simp_all add: MapCount_whole_window)
  then show "ReduceSum key
        (map snd (concat (map (\<lambda>w. fst (MapCount (bufIteratorOver \<lparr>itrTags = tgs, points = snd w\<rparr>) (fst w))) ws)))
      = ([(key, VFloat (real (length (concat (map snd ws)))))], None)"
    by (simp only: ReduceSum_counts)
next
  assume a: "list_all (\<lambda>p. fst p \<noteq> 0) (points it) \<and> snd (MapperRun fuel MapCount it intv)"
  then have nz: "list_all (\<lambda>p. fst p \<noteq> 0) (points it)" by simp
  from a have e: "snd (MapperRun fuel MapDraw it intv)" by (simp add: MapperRun_MapCount)
  have "concat (map snd (fst (MapperRun fuel MapDraw it intv))) = points it"
    using e unfolding MapperRun_MapDraw [OF nz] by (rule windows_concat)
  moreover have "fst (MapperRun fuel MapCount it intv) =
      map (countRecord (itrTags it)) (fst (MapperRun fuel MapDraw it intv))"
    by (simp add: MapperRun_MapCount)
  ultimately show "ReduceSum key (map snd (fst (MapperRun fuel MapCount it intv)))
      = ([(key, VFloat (real (length (points it))))], None)"
    by (simp only: ReduceSum_counts)
qed

lemma windows_ends:
  assumes "0 < intv" and "sorted_wrt (\<lambda>p q. fst p \<le> fst q) s"
    and "\<forall>p\<in>set s. tmin \<le> fst p \<and> fst p \<le> m \<and> fst p + intv < 2 ^ 63"
    and "m - tmin < int fuel * intv"
    and "0 \<le> tmin" and "1 < tmin + intv"
  shows "snd (windows (Suc fuel) intv tmin s)"
  using assms
proof (induction fuel arbitrary: tmin s)
  case 0
  then have "s = []" by (cases s) auto
  then show ?case by simp
next
  case (Suc fuel)
  show ?case
  proof (cases "s = []")
    case True
    then show ?thesis by simp
  next
    case False
    then obtain x where x: "x \<in> set s" by (cases s) auto
    with Suc.prems have r: "tmin + intv < 2 ^ 63" by force
    define T where "T = tmin + intv - 1"
    have w1: "wrap64 (tmin + intv - 1) = T"
      using r Suc.prems(1,5) by (simp add: T_def wrap64_id)
    have w2: "wrap64 (tmin + intv) = tmin + intv"
      using r Suc.prems(1,5) by (simp add: wrap64_id)
    have T0: "0 < T" using Suc.prems(6) by (simp add: T_def)
    have P: "passes T = (\<lambda>p. fst p \<le> T)" using T0 by (auto simp: passes_def)
    have "snd (windows (Suc fuel) intv (tmin + intv) (dropWhile (passes T) s))"
    proof (rule Suc.IH)
      show "0 < intv" by fact
      show "sorted_wrt (\<lambda>p q. fst p \<le> fst q) (dropWhile (passes T) s)"
        using Suc.prems(2) by (rule sorted_wrt_dropWhile_fst)
      show "\<forall>p\<in>set (dropWhile (passes T) s).
          tmin + intv \<le> fst p \<and> fst p \<le> m \<and> fst p + intv < 2 ^ 63"
      proof
        fix p assume p: "p \<in> set (dropWhile (passes T) s)"
        then have "p \<in> set s" by (auto dest: set_dropWhileD)
        moreover have "T < fst p" using dropWhile_lower [OF Suc.prems(2)] p unfolding P by blast
        ultimately show "tmin + intv \<le> fst p \<and> fst p \<le> m \<and> fst p + intv < 2 ^ 63"
          using Suc.prems(3) by (auto simp: T_def)
      qed
      show "m - (tmin + intv) < int fuel * intv"
        using Suc.prems(4) by (simp add: algebra_simps)
      show "0 \<le> tmin + intv" using Suc.prems(1,5) by simp
      show "1 < tmin + intv + intv" using Suc.prems(1,6) by simp
    qed
    then show ?thesis
      using False Suc.prems(1) by (simp add: w1 w2 split_beta Let_def)
  qed
qed

lemma windows_ends_no_interval:
  "intv \<le> 0 \<Longrightarrow> snd (windows (Suc (Suc fuel)) intv 0 s)"
  by (simp add: passes_def split_beta)

lemma MapperRun_ends:
  assumes "0 < intv"
    and "sorted (map fst (points it))"
    and "list_all (\<lambda>p. 0 < fst p \<and> fst p + intv < 2 ^ 63) (points it)"
  shows "\<exists>fuel. snd (MapperRun fuel MapDraw it intv)"
proof -
  have nz: "list_all (\<lambda>p. fst p \<noteq> 0) (points it)"
    using assms(3) by (induction "points it") (auto simp: list_all_iff)
  note run = MapperRun_MapDraw [OF nz, of _ intv]
  have srt: "sorted_wrt (\<lambda>p q. fst p \<le> fst q) (points it)"
    using assms(2) by (simp add: sorted_map)
  show ?thesis
  proof (cases "points it")
    case Nil
    then have "snd (MapperRun (Suc 0) MapDraw it intv)" by (simp add: run)
    then show ?thesis ..
  next
    case (Cons x xs)
    define tmin where "tmin = fst x - fst x mod intv"
    define m where "m = Max (fst ` set (points it))"
    have x: "0 < fst x" using assms(3) Cons by simp
    have t: "0 \<le> tmin" "tmin \<le> fst x"
      using assms(1) x zmod_le_nonneg_dividend [of "fst x" intv]
      by (simp_all add: tmin_def)
    have t1: "1 < tmin + intv"
    proof -
      have "fst x mod intv < intv" using assms(1) by simp
      then have "fst x < tmin + intv" by (simp add: tmin_def)
      with x show ?thesis by simp
    qed
    have lo: "\<forall>p\<in>set (points it). tmin \<le> fst p \<and> fst p \<le> m \<and> fst p + intv < 2 ^ 63"
      using assms(3) srt t(2) Cons by (auto simp: list_all_iff m_def)
    have r: "MapperRun fuel MapDraw it intv = windows fuel intv tmin (points it)" for fuel
      using assms(1) x Cons by (simp add: run goRem_positive tmin_def)
    have "m - tmin < int (nat (m - tmin) + 1) * intv"
    proof -
      have "m - tmin < int (nat (m - tmin) + 1)" by simp
      also have "\<dots> \<le> int (nat (m - tmin) + 1) * intv"
        using assms(1) by (simp add: mult_le_cancel_left1)
      finally show ?thesis .
    qed
    then have "snd (windows (Suc (nat (m - tmin) + 1)) intv tmin (points it))"
      by (rule windows_ends [OF assms(1) srt lo _ t(1) t1])
    then have "snd (MapperRun (Suc (nat (m - tmin) + 1)) MapDraw it intv)" by (simp only: r)
    then show ?thesis ..
  qed
qed

lemma MapperRun_ends_no_interval:
  assumes "list_all (\<lambda>p. fst p \<noteq> 0) (points it)" and "intv \<le> 0"
  shows "snd (MapperRun (Suc (Suc fuel)) MapDraw it intv)"
  using assms(2) windows_ends_no_interval [of intv fuel "points it"]
  by (simp add: MapperRun_MapDraw [OF assms(1)])

theorem count_identity_witness:
  "list_all (\<lambda>p. fst p \<noteq> 0) (concat (map snd [(0, map tsPoint [3, 5]), (20, map tsPoint [27])])) \<and>
   ReduceSum \<lparr>Timestamp = 0, Values = ''a''\<rparr>
     (map snd (concat (map (\<lambda>w. fst (MapCount (bufIteratorOver \<lparr>itrTags = ''a'', points = snd w\<rparr>) (fst w)))
        [(0, map tsPoint [3, 5]), (20, map tsPoint [27])])))
     = ([(\<lparr>Timestamp = 0, Values = ''a''\<rparr>, VFloat 3)], None) \<and>
   list_all (\<lambda>p. fst p \<noteq> 0) (points \<lparr>itrTags = ''a'', points = map tsPoint [3, 5, 27, 31]\<rparr>) \<and>
   snd (MapperRun 5 MapCount \<lparr>itrTags = ''a'', points = map tsPoint [3, 5, 27, 31]\<rparr> 10) \<and>
   ReduceSum \<lparr>Timestamp = 0, Values = ''a''\<rparr>
     (map snd (fst (MapperRun 5 MapCount \<lparr>itrTags = ''a'', points = map tsPoint [3, 5, 27, 31]\<rparr> 10)))
     = ([(\<lparr>Timestamp = 0, Values = ''a''\<rparr>, VFloat 4)], None)"
proof -
  have e: "snd (MapperRun 5 MapCount \<lparr>itrTags = ''a'', points = map tsPoint [3, 5, 27, 31]\<rparr> 10)"
    by (simp add: MapperRun_MapCount MapperRun_MapDraw tsPoint_def goRem_def wrap64_def
          passes_def eval_nat_numeral Let_def)
  show ?thesis
    using e
      count_identity [of "[(0, map tsPoint [3, 5]), (20, map tsPoint [27])]"
        "\<lparr>Timestamp = 0, Values = ''a''\<rparr>" "''a''"
        "\<lparr>itrTags = ''a'', points = map tsPoint [3, 5, 27, 31]\<rparr>" 5 10]
    by (simp add: tsPoint_def)
qed

text \<open>
  The loop of \<open>Mapper.run\<close> does end, for \<open>MapCount\<close> as for any map function that
  draws with the loop above: without an interval after one window, with an interval
  over an ascending stream of positive timestamps after finitely many.
\<close>

lemma MapperRun_MapCount_ends:
  assumes "0 < intv"
    and "sorted (map fst (points it))"
    and "list_all (\<lambda>p. 0 < fst p \<and> fst p + intv < 2 ^ 63) (points it)"
  shows "\<exists>fuel. snd (MapperRun fuel MapCount it intv)"
  using MapperRun_ends [OF assms] by (simp add: MapperRun_MapCount)

lemma MapperRun_MapCount_ends_no_interval:
  assumes "list_all (\<lambda>p. fst p \<noteq> 0) (points it)" and "intv \<le> 0"
  shows "snd (MapperRun (Suc (Suc fuel)) MapCount it intv)"
  using MapperRun_ends_no_interval [OF assms] by (simp add: MapperRun_MapCount)

subsection \<open>Reducer\<close>

lemma MapCount_first_hour:
  "MapperRun 2 MapCount \<lparr>itrTags = ''a'', points = [tsPoint 3]\<rparr> 10 =
     ([(\<lparr>Timestamp = 0, Values = ''a''\<rparr>, VFloat 1)], True)"
  by (simp add: MapperRun_MapCount MapperRun_MapDraw tsPoint_def goRem_def wrap64_def
        passes_def eval_nat_numeral Let_def countRecord_def)

lemma MapCount_later:
  "MapperRun 2 MapCount \<lparr>itrTags = ''b'', points = [tsPoint 15]\<rparr> 10 =
     ([(\<lparr>Timestamp = 10, Values = ''b''\<rparr>, VFloat 1)], True)"
  by (simp add: MapperRun_MapCount MapperRun_MapDraw tsPoint_def goRem_def wrap64_def
        passes_def eval_nat_numeral Let_def countRecord_def)

text \<open>
  C3. Two mappers with interval 10 feed a reducer: the first has one point at 3 and emits
  the window starting at 0, the second has one point at 15 and emits the window starting
  at 10. In the first round \<open>timestamp\<close> is set to 0 by the first input and then, being
  0, overwritten with 10 by the second: the key of window 10 is reduced and emitted
  first, the key of window 0 in the next round. The emitted timestamps are 10, 0.
\<close>

theorem ReducerRun_window_zero_after_later_window:
  "ReducerRun 3 ReduceSum
     [MapperChannel (MapperRun 2 MapCount \<lparr>itrTags = ''a'', points = [tsPoint 3]\<rparr> 10),
      MapperChannel (MapperRun 2 MapCount \<lparr>itrTags = ''b'', points = [tsPoint 15]\<rparr> 10)]
   = (([(\<lparr>Timestamp = 10, Values = ''b''\<rparr>, VFloat 1),
        (\<lparr>Timestamp = 0, Values = ''a''\<rparr>, VFloat 1)], None), True)"
  unfolding MapCount_first_hour MapCount_later
  by (simp add: MapperChannel_def ReducerRun_def
        eval_nat_numeral inputPeek_def inputRead_def inputUnread_def mapToRecord_def
        readSame.simps dataAppend_def reduceCalls_def sortSort_def ReduceSum_def
        assertFloat_def)

subsection \<open>Reducer: the order within a round\<close>

lemma dataAppend_keys: "fst ` set (dataAppend data rec) = insert (fst rec) (fst ` set data)"
proof -
  have "dom (map_of (dataAppend data rec)) = insert (fst rec) (dom (map_of data))"
    by (simp add: dataAppend_def update_conv')
  then show ?thesis by (simp add: dom_map_of_conv_image_fst)
qed

lemma set_sortSort: "set (sortSort lt xs) = set xs"
  by (induction xs) (simp_all add: sortSort_def set_insertBy)

lemma keyLe_same:
  "Timestamp x = Timestamp y \<Longrightarrow> keyLe x y \<longleftrightarrow> Values x \<le> Values y"
  by (simp add: keyLe_def)

lemma keySliceLess_same:
  "Timestamp x = Timestamp y \<Longrightarrow> keySliceLess x y \<longleftrightarrow> Values x < Values y"
  by (simp add: keySliceLess_def)

lemma Values_less_le_imp_le: "Values x < Values y \<Longrightarrow> Values y \<le> Values z \<Longrightarrow> Values x \<le> Values z"
  by (rule less_imp_le [OF less_le_trans])

lemma keyLe_trans_same:
  assumes "Timestamp x = Timestamp y" and "Timestamp y = Timestamp z"
    and "keySliceLess x y" and "keyLe y z"
  shows "keyLe x z"
proof -
  have "Values x < Values y" using assms(1,3) unfolding keySliceLess_def by auto
  moreover have "Values y \<le> Values z" using assms(2,4) unfolding keyLe_def by auto
  ultimately have "Values x \<le> Values z" by (rule Values_less_le_imp_le)
  moreover have "Timestamp x = Timestamp z" using assms(1,2) by (rule trans)
  ultimately show ?thesis unfolding keyLe_def by blast
qed

lemma keyLe_of_not_less:
  assumes "Timestamp x = Timestamp y" and "\<not> keySliceLess x y"
  shows "keyLe y x"
proof -
  have "\<not> Values x < Values y" using assms(2) unfolding keySliceLess_def by blast
  then have "Values y \<le> Values x" by (rule leI)
  moreover have "Timestamp y = Timestamp x" using assms(1) by (rule sym)
  ultimately show ?thesis unfolding keyLe_def by blast
qed

lemma keyLe_of_less:
  assumes "Timestamp x = Timestamp y" and "keySliceLess x y"
  shows "keyLe x y"
proof -
  have "Values x < Values y" using assms unfolding keySliceLess_def by auto
  then have "Values x \<le> Values y" by (rule less_imp_le)
  with assms(1) show ?thesis unfolding keyLe_def by blast
qed

lemma sorted_insertBy_keys:
  assumes "\<forall>k\<in>set (x # xs). Timestamp k = t" and "sorted_wrt keyLe xs"
  shows "sorted_wrt keyLe (insertBy keySliceLess x xs)"
  using assms
proof (induction xs)
  case Nil
  show ?case by simp
next
  case (Cons y ys)
  have tx: "Timestamp x = t" and ty: "Timestamp y = t" and tys: "\<forall>z\<in>set ys. Timestamp z = t"
    using Cons.prems(1) by simp_all
  have same: "Timestamp x = Timestamp y" using tx ty by (rule trans [OF _ sym])
  have tail: "sorted_wrt keyLe ys" and head: "\<forall>z\<in>set ys. keyLe y z"
    using Cons.prems(2) by simp_all
  show ?case
  proof (cases "keySliceLess x y")
    case True
    have xy: "keyLe x y" using same True by (rule keyLe_of_less)
    have xz: "\<forall>z\<in>set ys. keyLe x z"
    proof
      fix z assume z: "z \<in> set ys"
      have "Timestamp y = Timestamp z" using ty tys z by (metis)
      moreover have "keyLe y z" using head z by blast
      ultimately show "keyLe x z" using same True by (metis keyLe_trans_same)
    qed
    have "insertBy keySliceLess x (y # ys) = x # y # ys" using True by simp
    moreover have "sorted_wrt keyLe (x # y # ys)"
      using xy xz head tail by simp
    ultimately show ?thesis by (simp only:)
  next
    case False
    have yx: "keyLe y x" using same False by (rule keyLe_of_not_less)
    have "\<forall>k\<in>set (x # ys). Timestamp k = t" using tx tys by simp
    then have ih: "sorted_wrt keyLe (insertBy keySliceLess x ys)"
      using tail by (rule Cons.IH)
    have "insertBy keySliceLess x (y # ys) = y # insertBy keySliceLess x ys"
      using False by simp
    moreover have "sorted_wrt keyLe (y # insertBy keySliceLess x ys)"
      using yx head ih by (simp add: set_insertBy)
    ultimately show ?thesis by (simp only:)
  qed
qed

lemma sorted_sortSort_keys:
  "\<forall>k\<in>set ks. Timestamp k = t \<Longrightarrow> sorted_wrt keyLe (sortSort keySliceLess ks)"
proof (induction ks)
  case Nil
  show ?case by (simp add: sortSort_def)
next
  case (Cons k ks)
  have "sorted_wrt keyLe (sortSort keySliceLess ks)" using Cons by simp
  moreover have "\<forall>k'\<in>set (k # sortSort keySliceLess ks). Timestamp k' = t"
    using Cons.prems by (simp add: set_sortSort)
  ultimately have "sorted_wrt keyLe (insertBy keySliceLess k (sortSort keySliceLess ks))"
    by (rule sorted_insertBy_keys [rotated])
  then show ?case by (simp add: sortSort_def)
qed

lemma readSame_timestamps:
  assumes "\<forall>k\<in>fst ` set data. Timestamp k = t"
  shows "\<forall>k\<in>fst ` set (fst (readSame t i data)). Timestamp k = t"
  using assms
proof (induction t i data rule: readSame.induct)
  case (1 timestamp i data)
  obtain r i' where ri: "inputRead i = (r, i')" by (cases "inputRead i")
  show ?case
  proof (cases r)
    case None
    have "readSame timestamp i data = (data, i')"
      using ri None by (subst readSame.simps) simp
    with "1.prems" show ?thesis by simp
  next
    case (Some rec)
    show ?thesis
    proof (cases "Timestamp (fst rec) = timestamp")
      case False
      have "readSame timestamp i data = (data, inputUnread i' (Some rec))"
        using ri Some False by (subst readSame.simps) simp
      with "1.prems" show ?thesis by simp
    next
      case True
      have e: "readSame timestamp i data = readSame timestamp i' (dataAppend data rec)"
        using ri Some True by (subst readSame.simps) simp
      have "\<forall>k\<in>fst ` set (dataAppend data rec). Timestamp k = timestamp"
        using "1.prems" True by (simp add: dataAppend_keys)
      then have "\<forall>k\<in>fst ` set (fst (readSame timestamp i' (dataAppend data rec))).
          Timestamp k = timestamp"
        using ri Some True by (intro "1.IH") simp_all
      then show ?thesis by (simp only: e)
    qed
  qed
qed

lemma readAll_timestamps:
  assumes "\<forall>k\<in>fst ` set data. Timestamp k = t"
  shows "\<forall>k\<in>fst ` set (fst (readAll t inputs data)). Timestamp k = t"
  using assms
proof (induction inputs arbitrary: data)
  case Nil
  then show ?case by simp
next
  case (Cons i inputs)
  have "\<forall>k\<in>fst ` set (fst (readSame t i data)). Timestamp k = t"
    using Cons.prems by (rule readSame_timestamps)
  then have "\<forall>k\<in>fst ` set (fst (readAll t inputs (fst (readSame t i data)))). Timestamp k = t"
    by (rule Cons.IH)
  then show ?case by (simp add: split_beta)
qed

text \<open>
  Within a round the keys have the timestamp of the round, and the reduce function is
  called on them in the order of (timestamp, tagset).
\<close>

lemma reduceRounds_sorted:
  "list_all (\<lambda>calls. sorted_wrt keyLe (map fst calls)) (fst (reduceRounds fuel inputs))"
proof (induction fuel arbitrary: inputs)
  case 0
  show ?case by simp
next
  case (Suc fuel)
  define t where "t = fst (peekTimestamp inputs 0)"
  define inputs1 where "inputs1 = snd (peekTimestamp inputs 0)"
  define data where "data = fst (readAll t inputs1 [])"
  define inputs2 where "inputs2 = snd (readAll t inputs1 [])"
  have "\<forall>k\<in>fst ` set data. Timestamp k = t"
    unfolding data_def by (rule readAll_timestamps) simp
  then have "\<forall>k\<in>set (map fst data). Timestamp k = t" by simp
  then have "sorted_wrt keyLe (sortSort keySliceLess (map fst data))"
    by (rule sorted_sortSort_keys)
  then have here: "sorted_wrt keyLe (map fst (reduceCalls data))"
    by (simp add: reduceCalls_def comp_def)
  have rest: "list_all (\<lambda>calls. sorted_wrt keyLe (map fst calls)) (fst (reduceRounds fuel inputs2))"
    by (rule Suc)
  have "fst (reduceRounds (Suc fuel) inputs) =
    (if length data = 0 then [] else reduceCalls data # fst (reduceRounds fuel inputs2))"
    by (simp add: split_beta t_def inputs1_def data_def inputs2_def)
  with here rest show ?case by simp
qed

subsection \<open>binaryExprEvaluator: batches without a missing key\<close>

lemma eval_floats:
  "opr \<noteq> EQ \<Longrightarrow> eval opr (VFloat a) (VFloat b) = Inr (VFloat (binop opr a b))"
  by (cases opr) (simp_all add: assertFloat_def binop_def)

lemma map_of_floatBatch: "map_of (floatBatch xs) k = map_option VFloat (map_of xs k)"
  by (induction xs) (auto simp: floatBatch_def)

lemma mergeLhs_floats:
  assumes "opr \<noteq> EQ" and "distinct (map fst L)"
    and "\<forall>k\<in>fst ` set L. map_of R k \<noteq> None"
  shows "\<exists>m'. mergeLhs opr (floatBatch R) (floatBatch L) m = Inr m' \<and>
    (\<forall>k. map_of m' k =
      (case map_of L k of
         None \<Rightarrow> map_of m k
       | Some a \<Rightarrow> Some (VFloat (binop opr a (the (map_of R k))))))"
  using assms(2,3)
proof (induction L arbitrary: m)
  case Nil
  show ?case by (simp add: floatBatch_def)
next
  case (Cons ka L)
  obtain k a where ka: "ka = (k, a)" by (cases ka)
  from Cons.prems(2) ka obtain b where r: "map_of R k = Some b" by auto
  have e: "eval opr (VFloat a) (mapIndex (floatBatch R) k) = Inr (VFloat (binop opr a b))"
    using assms(1) by (simp add: r mapIndex_def map_of_floatBatch eval_floats)
  have d: "distinct (map fst L)" and nk: "k \<notin> fst ` set L"
    using Cons.prems(1) ka by simp_all
  have p: "\<forall>k\<in>fst ` set L. map_of R k \<noteq> None"
    using Cons.prems(2) by simp
  from Cons.IH [OF d p, of "AList.update k (VFloat (binop opr a b)) m"]
  obtain m' where
    m': "mergeLhs opr (floatBatch R) (floatBatch L) (AList.update k (VFloat (binop opr a b)) m)
          = Inr m'"
    and mm: "\<And>k'. map_of m' k' =
      (case map_of L k' of
         None \<Rightarrow> map_of (AList.update k (VFloat (binop opr a b)) m) k'
       | Some a \<Rightarrow> Some (VFloat (binop opr a (the (map_of R k')))))"
    by blast
  have none: "map_of L k = None" using nk by (simp add: map_of_eq_None_iff)
  have "mergeLhs opr (floatBatch R) (floatBatch (ka # L)) m = Inr m'"
    using e m' by (simp add: ka floatBatch_def)
  moreover have "map_of m' k' =
      (case map_of (ka # L) k' of
         None \<Rightarrow> map_of m k'
       | Some a \<Rightarrow> Some (VFloat (binop opr a (the (map_of R k')))))" for k'
  proof (cases "k' = k")
    case True
    then show ?thesis by (simp add: mm none ka r update_conv')
  next
    case False
    then show ?thesis by (simp add: mm ka update_conv' split: option.splits)
  qed
  ultimately show ?case by blast
qed

lemma mergeRhs_floats:
  assumes "opr \<noteq> EQ"
  shows "\<exists>m'. mergeRhs opr (floatBatch R) m = Inr m' \<and>
    (\<forall>k. map_of m' k =
      (case map_of m k of
         Some v \<Rightarrow> Some v
       | None \<Rightarrow> map_option (\<lambda>b. VFloat (binop opr 0 b)) (map_of R k)))"
proof (induction R arbitrary: m)
  case Nil
  show ?case by (simp add: floatBatch_def split: option.splits)
next
  case (Cons kb R)
  obtain k b where kb: "kb = (k, b)" by (cases kb)
  show ?case
  proof (cases "mapHas m k")
    case True
    then obtain v where v: "map_of m k = Some v" by (auto simp: mapHas_def)
    from Cons [of m] obtain m' where
      m': "mergeRhs opr (floatBatch R) m = Inr m'"
      and mm: "\<And>k'. map_of m' k' =
        (case map_of m k' of
           Some v \<Rightarrow> Some v
         | None \<Rightarrow> map_option (\<lambda>b. VFloat (binop opr 0 b)) (map_of R k'))"
      by blast
    have "mergeRhs opr (floatBatch (kb # R)) m = Inr m'"
      using True m' by (simp add: kb floatBatch_def)
    moreover have "map_of m' k' =
        (case map_of m k' of
           Some v \<Rightarrow> Some v
         | None \<Rightarrow> map_option (\<lambda>b. VFloat (binop opr 0 b)) (map_of (kb # R) k'))" for k'
      by (cases "k' = k") (simp_all add: mm v kb split: option.splits)
    ultimately show ?thesis by blast
  next
    case False
    then have n: "map_of m k = None" by (simp add: mapHas_def)
    have e: "eval opr (VFloat 0) (VFloat b) = Inr (VFloat (binop opr 0 b))"
      using assms by (rule eval_floats)
    from Cons [of "AList.update k (VFloat (binop opr 0 b)) m"] obtain m' where
      m': "mergeRhs opr (floatBatch R) (AList.update k (VFloat (binop opr 0 b)) m) = Inr m'"
      and mm: "\<And>k'. map_of m' k' =
        (case map_of (AList.update k (VFloat (binop opr 0 b)) m) k' of
           Some v \<Rightarrow> Some v
         | None \<Rightarrow> map_option (\<lambda>b. VFloat (binop opr 0 b)) (map_of R k'))"
      by blast
    have "mergeRhs opr (floatBatch (kb # R)) m = Inr m'"
      using False m' e by (simp add: kb floatBatch_def)
    moreover have "map_of m' k' =
        (case map_of m k' of
           Some v \<Rightarrow> Some v
         | None \<Rightarrow> map_option (\<lambda>b. VFloat (binop opr 0 b)) (map_of (kb # R) k'))" for k'
      by (cases "k' = k") (simp_all add: mm n kb update_conv' split: option.splits)
    ultimately show ?thesis by blast
  qed
qed

text \<open>
  When every key of the left batch is in the right batch, the merge is what the
  specification says: the operator applied to both values for a key of the left batch,
  and to 0 and the right value for a key of the right batch alone.
\<close>

lemma mergeMaps_floats:
  assumes "opr \<noteq> EQ" and "distinct (map fst L)"
    and "\<forall>k\<in>fst ` set L. map_of R k \<noteq> None"
  shows "\<exists>m. mergeMaps opr (floatBatch L) (floatBatch R) = Inr m \<and>
    (\<forall>k. map_of m k =
      (case map_of L k of
         Some a \<Rightarrow> Some (VFloat (binop opr a (the (map_of R k))))
       | None \<Rightarrow> map_option (\<lambda>b. VFloat (binop opr 0 b)) (map_of R k)))"
proof -
  from mergeLhs_floats [OF assms, of "[]"] obtain m1 where
    m1: "mergeLhs opr (floatBatch R) (floatBatch L) [] = Inr m1"
    and mm1: "\<And>k. map_of m1 k =
      (case map_of L k of
         None \<Rightarrow> map_of [] k
       | Some a \<Rightarrow> Some (VFloat (binop opr a (the (map_of R k)))))"
    by blast
  from mergeRhs_floats [OF assms(1), of R m1] obtain m where
    m: "mergeRhs opr (floatBatch R) m1 = Inr m"
    and mm: "\<And>k. map_of m k =
      (case map_of m1 k of
         Some v \<Rightarrow> Some v
       | None \<Rightarrow> map_option (\<lambda>b. VFloat (binop opr 0 b)) (map_of R k))"
    by blast
  have "mergeMaps opr (floatBatch L) (floatBatch R) = Inr m"
    by (simp add: mergeMaps_def m1 m)
  moreover have "map_of m k =
      (case map_of L k of
         Some a \<Rightarrow> Some (VFloat (binop opr a (the (map_of R k))))
       | None \<Rightarrow> map_option (\<lambda>b. VFloat (binop opr 0 b)) (map_of R k))" for k
    by (simp add: mm mm1 split: option.splits)
  ultimately show ?thesis by blast
qed

subsection \<open>Planner: a panic below a binary expression\<close>

text \<open>
  \<open>PERCENTILE\<close> with one argument passes the arity check for one argument and then
  panics on \<open>c.Args[1]\<close>; under a binary expression the panic is passed on as it is,
  while an error value gets the prefix of its side.
\<close>

lemma asciiToLower_PERCENTILE: "asciiToLower ''PERCENTILE'' = ''percentile''"
  by (simp add: asciiToLower_def char_of_def bit_iff_odd)

lemma planExpr_panic_not_prefixed:
  "planExpr exampleEnv (exampleExecutor x)
     (BinaryExpr ADD (Call ''PERCENTILE'' [VarRef ''v'']) (NumberLiteral 2))
   = Inl (Panicked IndexOutOfRange)"
  by (simp add: exampleEnv_def exampleExecutor_def exampleStatement_def planCall_def
        lookupFunctions_def asciiToLower_PERCENTILE)

lemma planExpr_error_prefixed:
  "planExpr exampleEnv (exampleExecutor x)
     (BinaryExpr ADD (NumberLiteral 2) (Call ''median'' []))
   = Inl (Prefixed ''rhs'' (ExpectedOneArgument ''median''))"
  by (simp add: planCall_def)

end
